theory Spec2Isabelle
  imports
    Complex_Main
    "HOL-Library.Signed_Division"
    "HOL-Library.Char_ord"
    "HOL-Library.List_Lexorder"
    "HOL-Library.Multiset"
begin

section \<open>Calendar (local-date.ts)\<close>

text \<open>
  \<^verbatim>\<open>type LocalDate = { y: number; m: number; d: number }\<close>.
  The three fields are JavaScript numbers; the calendar only ever stores whole numbers in
  them, so they are modelled as unbounded integers. The constructor keeps the name of the
  source's factory \<^verbatim>\<open>ld\<close>.
\<close>

datatype local_date = ld (year_of: int) (month_of: int) (day_of: int)

text \<open>
  \<^verbatim>\<open>Number.prototype.toString\<close> on a whole number: decimal digits, most significant
  first, with a leading minus sign for a negative number.
\<close>

definition digitChar :: "nat \<Rightarrow> char" where
  "digitChar n = ''0123456789'' ! (n mod 10)"

fun natToString :: "nat \<Rightarrow> string" where
  "natToString n =
     (if n < 10 then [digitChar n] else natToString (n div 10) @ [digitChar (n mod 10)])"

definition numberToString :: "int \<Rightarrow> string" where
  "numberToString i =
     (if i < 0 then CHR ''-'' # natToString (nat (- i)) else natToString (nat i))"

text \<open>\<^verbatim>\<open>String.prototype.padStart(n, c)\<close> for a one-character filler.\<close>

definition padStart :: "nat \<Rightarrow> char \<Rightarrow> string \<Rightarrow> string" where
  "padStart n c s = replicate (n - length s) c @ s"

text \<open>
  \<^verbatim>\<open>const toKeyMonth = (d) =>
    `${d.y.toString().padStart(4, "0")}-${d.m.toString().padStart(2, "0")}`\<close>
\<close>

definition toKeyMonth :: "local_date \<Rightarrow> string" where
  "toKeyMonth dt =
     padStart 4 (CHR ''0'') (numberToString (year_of dt)) @ ''-'' @
     padStart 2 (CHR ''0'') (numberToString (month_of dt))"

definition startOfMonthLD :: "local_date \<Rightarrow> local_date" where
  "startOfMonthLD dt = ld (year_of dt) (month_of dt) 1"

text \<open>
  \<^verbatim>\<open>const addMonthsLD = (d, delta) => {
    const total = d.m - 1 + delta;
    const newY = d.y + Math.floor(total / 12);
    const newM = (((total % 12) + 12) % 12) + 1;
    return ld(newY, newM, d.d);
  }\<close>
  JavaScript's \<^verbatim>\<open>%\<close> truncates towards zero (the sign follows the dividend): it is
  \<open>smod\<close>. \<^verbatim>\<open>Math.floor(total / 12)\<close> is the floor division \<open>div\<close>.
\<close>

definition addMonthsLD :: "local_date \<Rightarrow> int \<Rightarrow> local_date" where
  "addMonthsLD dt delta =
     (let total = month_of dt - 1 + delta;
          newY = year_of dt + total div 12;
          newM = (((total smod 12) + 12) smod 12) + 1
      in ld newY newM (day_of dt))"

text \<open>
  \<^verbatim>\<open>compareLD\<close> returns the first non-zero difference of year, month and day.
\<close>

definition compareLD :: "local_date \<Rightarrow> local_date \<Rightarrow> int" where
  "compareLD a b =
     (if year_of a \<noteq> year_of b then year_of a - year_of b
      else if month_of a \<noteq> month_of b then month_of a - month_of b
      else day_of a - day_of b)"

definition isAfterLD :: "local_date \<Rightarrow> local_date \<Rightarrow> bool" where
  "isAfterLD a b \<longleftrightarrow> compareLD a b > 0"


definition isSameDayLD :: "local_date \<Rightarrow> local_date \<Rightarrow> bool" where
  "isSameDayLD a b \<longleftrightarrow> compareLD a b = 0"


section \<open>JavaScript numbers\<close>

text \<open>
  A finite JavaScript number is an IEEE 754 binary64 value; it is modelled by the rational
  number it denotes. An arithmetic operation computes the exact result and rounds it to
  the nearest binary64 value, ties to the even significand, with the exponent bounded
  below as for subnormal numbers. Infinities and \<^verbatim>\<open>NaN\<close> are not modelled: a result
  beyond the largest finite double is rounded to 53 bits like any other, and the divisor
  of a division is taken to be non-zero. Negation, \<^verbatim>\<open>Math.abs\<close> and comparisons are
  exact.
\<close>

text \<open>The number of binary digits of a positive integer.\<close>

function bitLength :: "int \<Rightarrow> int" where
  "bitLength k = (if k \<le> 0 then 0 else 1 + bitLength (k div 2))"
  by pat_completeness auto
termination
  by (relation "measure nat") auto

declare bitLength.simps [simp del]

definition pow2 :: "int \<Rightarrow> rat" where
  "pow2 e = (if e \<ge> 0 then 2 ^ nat e else 1 / 2 ^ nat (- e))"

text \<open>For a positive rational \<open>a\<close>, the exponent \<open>e\<close> with \<open>2^e \<le> a < 2^(e+1)\<close>.\<close>

definition floorLog2 :: "rat \<Rightarrow> int" where
  "floorLog2 a =
     (let g = bitLength (fst (quotient_of a)) - bitLength (snd (quotient_of a))
      in if a \<ge> pow2 g then g else g - 1)"

definition roundHalfEven :: "rat \<Rightarrow> int" where
  "roundHalfEven x =
     (let f = \<lfloor>x\<rfloor>; r = x - of_int f
      in if r < 1 / 2 then f else if r > 1 / 2 then f + 1 else if even f then f else f + 1)"

definition roundToDouble :: "rat \<Rightarrow> rat" where
  "roundToDouble x =
     (if x = 0 then 0
      else (let a = \<bar>x\<bar>;
                e = max (floorLog2 a) (- 1022);
                ulp = pow2 (e - 52)
            in sgn x * of_int (roundHalfEven (a / ulp)) * ulp))"

definition jsAdd :: "rat \<Rightarrow> rat \<Rightarrow> rat" where
  "jsAdd a b = roundToDouble (a + b)"

definition jsSub :: "rat \<Rightarrow> rat \<Rightarrow> rat" where
  "jsSub a b = roundToDouble (a - b)"



section \<open>Events, conditions and scenarios\<close>

text \<open>
  The type declarations of events live in the engine module, which is not among the
  sources; their shape is taken from the way the analyzer, the dividend generator and the
  tests use them (\<^verbatim>\<open>event.name\<close>, \<^verbatim>\<open>event.type\<close>, \<^verbatim>\<open>event.amount\<close>,
  \<^verbatim>\<open>event.recurrence.type\<close>, \<^verbatim>\<open>event.unlockedBy\<close>, \<^verbatim>\<open>c.tag\<close>, \<^verbatim>\<open>c.type\<close>,
  \<^verbatim>\<open>c.value.eventName\<close>, \<^verbatim>\<open>c.value.amount\<close>) and from the data model of the
  specification. Amounts are JavaScript numbers, that is, rationals that the code combines
  with the rounding operations above.
\<close>

datatype event_type = Income | Expense

text \<open>
  Modelled from the spec: the recurrence variants \<open>once(date)\<close>,
  \<open>monthly(startDate, endDate|open)\<close> and \<open>yearly(startDate, endDate|open)\<close>; the source
  only shows the discriminator \<^verbatim>\<open>event.recurrence.type\<close>.
\<close>

datatype recurrence =
    Once local_date
  | Monthly local_date "local_date option"
  | Yearly local_date "local_date option"

text \<open>
  A condition is a discriminated union on \<^verbatim>\<open>tag\<close> and \<^verbatim>\<open>type\<close>, as the parameter
  type of \<^verbatim>\<open>conditionToString\<close> declares it: the tag \<^verbatim>\<open>"cashflow"\<close> carries the types
  \<^verbatim>\<open>"date-is"\<close> and \<^verbatim>\<open>"date-in-range"\<close>, the tag \<^verbatim>\<open>"balance"\<close> carries
  \<^verbatim>\<open>"networth-is-above"\<close> (value \<^verbatim>\<open>{eventRef, amount}\<close>), \<^verbatim>\<open>"event-happened"\<close>
  (value \<^verbatim>\<open>{eventName}\<close>) and \<^verbatim>\<open>"income-is-above"\<close> (value \<^verbatim>\<open>{eventName, amount}\<close>).
\<close>

datatype condition =
    DateIs local_date
  | DateInRange local_date local_date
  | NetworthIsAbove string rat
  | EventHappened string
  | IncomeIsAbove string rat

datatype condition_tag = Cashflow | Balance

fun tag :: "condition \<Rightarrow> condition_tag" where
  "tag (DateIs _) = Cashflow"
| "tag (DateInRange _ _) = Cashflow"
| "tag (NetworthIsAbove _ _) = Balance"
| "tag (EventHappened _) = Balance"
| "tag (IncomeIsAbove _ _) = Balance"

fun isEventHappened :: "condition \<Rightarrow> bool" where
  "isEventHappened (EventHappened _) = True"
| "isEventHappened _ = False"

text \<open>
  \<^verbatim>\<open>ScenarioEvent\<close>. The field \<^verbatim>\<open>type\<close> is called \<open>etype\<close> here. The recurrence is
  optional: the test of the balance condition builds an event with \<^verbatim>\<open>makeEvent\<close> and
  gives it no recurrence at all.
\<close>

record scenario_event =
  name :: string
  etype :: event_type
  amount :: rat
  recurrence :: "recurrence option"
  unlockedBy :: "condition list"

record scenario =
  scenario_name :: string
  events :: "scenario_event list"


text \<open>
  \<^verbatim>\<open>event.type === "income" ? event.amount : -event.amount\<close>, the signed amount that
  the analyzer and the timeline both compute.
\<close>

definition signedAmount :: "scenario_event \<Rightarrow> rat" where
  "signedAmount e = (if etype e = Income then amount e else - amount e)"

section \<open>Simulation result as the analyzer reads it\<close>

text \<open>
  \<^verbatim>\<open>Record<string, V>\<close> is a JavaScript object: it is modelled as the list of its
  entries in the object's own enumeration order (\<^verbatim>\<open>Object.entries\<close>), and a property
  read \<^verbatim>\<open>obj[key]\<close> is \<open>map_of\<close>.
\<close>

record cashflow_data =
  cf_amount :: rat
  cf_events :: "scenario_event list"

record scenario_result =
  balance :: "(string \<times> rat) list"
  cashflow :: "(string \<times> cashflow_data) list"

section \<open>Dependency analyzer (event-analyzer.ts)\<close>

record conditional_event =
  ce_event :: scenario_event
  ce_conditions :: "string list"

record triggered_event =
  tr_event :: scenario_event
  tr_triggerEvent :: string
  tr_firedAt :: "string option"

record starting_item =
  si_event :: scenario_event
  si_amount :: rat

record triggered_item =
  ti_event :: scenario_event
  ti_triggerEvent :: string

record flow_month =
  monthKey :: string
  startingEvents :: "starting_item list"
  triggeredBy :: "triggered_item list"

record event_dependency_analysis =
  independentEvents :: "scenario_event list"
  conditionalEvents :: "conditional_event list"
  triggeredEvents :: "triggered_event list"
  eventFlow :: "flow_month list"

text \<open>
  \<^verbatim>\<open>conditionToString\<close>. The amount is rendered by \<^verbatim>\<open>toLocaleString()\<close>, which depends
  on the locale of the host; the rendering is a parameter.
\<close>

fun conditionToString :: "(rat \<Rightarrow> string) \<Rightarrow> condition \<Rightarrow> string" where
  "conditionToString toLocaleString (DateIs _) = []"
| "conditionToString toLocaleString (DateInRange _ _) = []"
| "conditionToString toLocaleString (NetworthIsAbove _ amt) =
     ''When net worth > $'' @ toLocaleString amt"
| "conditionToString toLocaleString (EventHappened eventName) =
     ''After '' @ [CHR 0x22] @ eventName @ [CHR 0x22] @ '' happens''"
| "conditionToString toLocaleString (IncomeIsAbove eventName amt) =
     ''When '' @ [CHR 0x22] @ eventName @ [CHR 0x22] @ '' >= $'' @ toLocaleString amt"

text \<open>
  The search for the month in which an event first fired:
  \<^verbatim>\<open>for (const [monthKey, cashflowData] of Object.entries(result.cashflow)) {
    if (cashflowData.events.some((e) => e.name === event.name)) { firedAt = monthKey; break; }
  }\<close>
\<close>

fun findFiredAt :: "(string \<times> cashflow_data) list \<Rightarrow> string \<Rightarrow> string option" where
  "findFiredAt [] n = None"
| "findFiredAt ((k, data) # rest) n =
     (if list_ex (\<lambda>e. name e = n) (cf_events data) then Some k else findFiredAt rest n)"

text \<open>
  One iteration of the categorizing loop over \<^verbatim>\<open>scenario.events\<close>. The three output
  arrays are the first three fields of the analysis under construction; \<^verbatim>\<open>push\<close>
  appends at the end.
\<close>

definition categorizeEvent ::
  "(rat \<Rightarrow> string) \<Rightarrow> scenario_result \<Rightarrow> event_dependency_analysis \<Rightarrow> scenario_event
     \<Rightarrow> event_dependency_analysis" where
  "categorizeEvent toLocaleString result acc event =
     (let balanceConditions = filter (\<lambda>c. tag c = Balance) (unlockedBy event) in
      if length balanceConditions = 0 then
        acc\<lparr>independentEvents := independentEvents acc @ [event]\<rparr>
      else
        (case find isEventHappened balanceConditions of
           Some (EventHappened triggerEventName) \<Rightarrow>
             acc\<lparr>triggeredEvents := triggeredEvents acc @
               [\<lparr>tr_event = event, tr_triggerEvent = triggerEventName,
                 tr_firedAt = findFiredAt (cashflow result) (name event)\<rparr>]\<rparr>
         | _ \<Rightarrow>
             acc\<lparr>conditionalEvents := conditionalEvents acc @
               [\<lparr>ce_event = event,
                 ce_conditions =
                   filter (\<lambda>s. s \<noteq> []) (map (conditionToString toLocaleString) balanceConditions)\<rparr>]\<rparr>))"

text \<open>
  One iteration of the inner loop over the events fired in a month: the event goes to
  \<^verbatim>\<open>triggeredBy\<close> when \<^verbatim>\<open>triggeredEvents.find((t) => t.event.name === event.name)\<close>
  finds an entry, and to \<^verbatim>\<open>startingEvents\<close> with its signed amount otherwise.
\<close>

definition flowEvent ::
  "triggered_event list \<Rightarrow> starting_item list \<times> triggered_item list \<Rightarrow> scenario_event
     \<Rightarrow> starting_item list \<times> triggered_item list" where
  "flowEvent triggered acc event =
     (let amt = signedAmount event in
      case find (\<lambda>t. name (tr_event t) = name event) triggered of
        Some trigger \<Rightarrow>
          (fst acc, snd acc @ [\<lparr>ti_event = event, ti_triggerEvent = tr_triggerEvent trigger\<rparr>])
      | None \<Rightarrow> (fst acc @ [\<lparr>si_event = event, si_amount = amt\<rparr>], snd acc))"

datatype js_error = TypeError | ConstructionError

text \<open>
  The loop over the sorted month keys. \<^verbatim>\<open>result.cashflow[monthKey]\<close> is a property read;
  reading \<^verbatim>\<open>.events\<close> of an absent entry would raise a \<^verbatim>\<open>TypeError\<close>. A month without
  fired events is skipped (\<^verbatim>\<open>continue\<close>).
\<close>

fun buildEventFlow ::
  "triggered_event list \<Rightarrow> (string \<times> cashflow_data) list \<Rightarrow> string list \<Rightarrow> flow_month list
     \<Rightarrow> js_error + flow_month list" where
  "buildEventFlow triggered cf [] flow = Inr flow"
| "buildEventFlow triggered cf (k # ks) flow =
     (case map_of cf k of
        None \<Rightarrow> Inl TypeError
      | Some cashflowData \<Rightarrow>
          if length (cf_events cashflowData) = 0 then buildEventFlow triggered cf ks flow
          else
            (let (starting, trig) = foldl (flowEvent triggered) ([], []) (cf_events cashflowData) in
             if length starting > 0 \<or> length trig > 0 then
               buildEventFlow triggered cf ks
                 (flow @ [\<lparr>monthKey = k, startingEvents = starting, triggeredBy = trig\<rparr>])
             else buildEventFlow triggered cf ks flow))"

text \<open>
  \<^verbatim>\<open>analyzeEventDependencies(scenario, result)\<close>. \<^verbatim>\<open>Object.keys(result.cashflow).sort()\<close>
  sorts the keys as strings, by code unit: \<open>sort\<close> with the lexicographic order on
  character lists.
\<close>

definition analyzeEventDependencies ::
  "(rat \<Rightarrow> string) \<Rightarrow> scenario \<Rightarrow> scenario_result \<Rightarrow> js_error + event_dependency_analysis" where
  "analyzeEventDependencies toLocaleString scn result =
     (let categorized =
            foldl (categorizeEvent toLocaleString result)
              \<lparr>independentEvents = [], conditionalEvents = [], triggeredEvents = [], eventFlow = []\<rparr>
              (events scn);
          sortedMonths = sort (map fst (cashflow result))
      in case buildEventFlow (triggeredEvents categorized) (cashflow result) sortedMonths [] of
           Inl err \<Rightarrow> Inl err
         | Inr flow \<Rightarrow> Inr (categorized\<lparr>eventFlow := flow\<rparr>))"

text \<open>
  The classification the analyzer is meant to compute, stated on an event alone: an event
  is independent when none of its conditions is balance-tagged; otherwise it is triggered
  when one of its balance-tagged conditions is an event-happened condition, and
  conditional when none is.
\<close>

datatype dependency_class = Independent | Conditional | Triggered

definition hasBalanceCondition :: "scenario_event \<Rightarrow> bool" where
  "hasBalanceCondition e = list_ex (\<lambda>c. tag c = Balance) (unlockedBy e)"

definition hasEventHappenedCondition :: "scenario_event \<Rightarrow> bool" where
  "hasEventHappenedCondition e = list_ex (\<lambda>c. tag c = Balance \<and> isEventHappened c) (unlockedBy e)"

definition dependencyClass :: "scenario_event \<Rightarrow> dependency_class" where
  "dependencyClass e =
     (if hasBalanceCondition e
      then (if hasEventHappenedCondition e then Triggered else Conditional)
      else Independent)"

text \<open>
  The trigger-event name recorded for a triggered event: the event name of its first
  event-happened condition.
\<close>

fun triggerEventName :: "condition list \<Rightarrow> string" where
  "triggerEventName [] = []"
| "triggerEventName (EventHappened n # cs) = n"
| "triggerEventName (c # cs) = triggerEventName cs"

text \<open>The events fired in a month of the result (none for a key the result lacks).\<close>

definition firedEvents :: "scenario_result \<Rightarrow> string \<Rightarrow> scenario_event list" where
  "firedEvents result k = (case map_of (cashflow result) k of None \<Rightarrow> [] | Some d \<Rightarrow> cf_events d)"

section \<open>Event factory and dividend generator (dividend-generator.ts)\<close>








section \<open>Cascade of dependents (scenario-planning-client.tsx)\<close>

text \<open>
  \<^verbatim>\<open>getDependentEvents(eventName, tempAnalysis)\<close>:
  \<^verbatim>\<open>const dependents = new Set<string>();
  for (const triggered of tempAnalysis.triggeredEvents) {
    if (triggered.triggerEvent === eventName) {
      dependents.add(triggered.event.name);
      getDependentEvents(triggered.event.name, tempAnalysis).forEach((name) => dependents.add(name));
    }
  }
  return dependents;\<close>
  The recursion has no guard, so it need not return. The model counts the depth of the
  recursion down from a bound: \<open>None\<close> says that the bound was too small. The loop takes
  the recursive call as an argument.
\<close>

fun dependentsLoop ::
  "(string \<Rightarrow> string set option) \<Rightarrow> string \<Rightarrow> triggered_event list \<Rightarrow> string set
     \<Rightarrow> string set option" where
  "dependentsLoop recur eventName [] dependents = Some dependents"
| "dependentsLoop recur eventName (triggered # rest) dependents =
     (if tr_triggerEvent triggered = eventName then
        (case recur (name (tr_event triggered)) of
           None \<Rightarrow> None
         | Some sub \<Rightarrow>
             dependentsLoop recur eventName rest
               (insert (name (tr_event triggered)) dependents \<union> sub))
      else dependentsLoop recur eventName rest dependents)"

fun getDependentEvents ::
  "nat \<Rightarrow> string \<Rightarrow> event_dependency_analysis \<Rightarrow> string set option" where
  "getDependentEvents 0 eventName tempAnalysis = None"
| "getDependentEvents (Suc depth) eventName tempAnalysis =
     dependentsLoop (\<lambda>n. getDependentEvents depth n tempAnalysis) eventName
       (triggeredEvents tempAnalysis) {}"

text \<open>
  The trigger relation of an analysis: each triggered event's name points to the name of
  its trigger event.
\<close>

definition triggerRelation :: "event_dependency_analysis \<Rightarrow> (string \<times> string) set" where
  "triggerRelation a = set (map (\<lambda>t. (name (tr_event t), tr_triggerEvent t)) (triggeredEvents a))"

section \<open>Timeline transformer (timeline-transformer.ts)\<close>

text \<open>
  A JavaScript \<^verbatim>\<open>Map\<close> keeps its entries in insertion order: it is modelled as an
  association list with \<^verbatim>\<open>has\<close>, \<^verbatim>\<open>get\<close> (\<open>map_of\<close>) and \<^verbatim>\<open>set\<close>. The values of
  the maps of the transformer are objects and arrays that the code mutates through the
  reference \<^verbatim>\<open>get\<close> returns; \<open>mapUpdate\<close> is that mutation on the stored value.
\<close>

definition mapHas :: "('k \<times> 'v) list \<Rightarrow> 'k \<Rightarrow> bool" where
  "mapHas m k = (map_of m k \<noteq> None)"

fun mapSet :: "'k \<Rightarrow> 'v \<Rightarrow> ('k \<times> 'v) list \<Rightarrow> ('k \<times> 'v) list" where
  "mapSet k v [] = [(k, v)]"
| "mapSet k v ((k', v') # rest) = (if k' = k then (k, v) # rest else (k', v') # mapSet k v rest)"

fun mapUpdate :: "'k \<Rightarrow> ('v \<Rightarrow> 'v) \<Rightarrow> ('k \<times> 'v) list \<Rightarrow> ('k \<times> 'v) list" where
  "mapUpdate k f [] = []"
| "mapUpdate k f ((k', v') # rest) =
     (if k' = k then (k', f v') # rest else (k', v') # mapUpdate k f rest)"

text \<open>
  \<^verbatim>\<open>monthKey.split("-")\<close> and \<^verbatim>\<open>parseInt\<close> without a radix: leading white space is
  skipped, a sign is read, a prefix \<^verbatim>\<open>0x\<close> selects radix 16, and the longest prefix of
  digits is the value; without a digit the result is \<^verbatim>\<open>NaN\<close>, which is \<open>None\<close> here.
  Characters are the 8-bit characters of \<open>string\<close>.
\<close>

fun splitOn :: "char \<Rightarrow> string \<Rightarrow> string list" where
  "splitOn sep [] = [[]]"
| "splitOn sep (c # cs) =
     (if c = sep then [] # splitOn sep cs
      else (case splitOn sep cs of [] \<Rightarrow> [[c]] | w # ws \<Rightarrow> (c # w) # ws))"

definition isStrWhiteSpace :: "char \<Rightarrow> bool" where
  "isStrWhiteSpace c =
     (c \<in> set [CHR 0x09, CHR 0x0A, CHR 0x0B, CHR 0x0C, CHR 0x0D, CHR 0x20, CHR 0xA0])"

definition digitOf :: "nat \<Rightarrow> char \<Rightarrow> nat option" where
  "digitOf radix c =
     (let n = (of_char c :: nat);
          v = (if 48 \<le> n \<and> n \<le> 57 then Some (n - 48)
               else if 97 \<le> n \<and> n \<le> 122 then Some (n - 87)
               else if 65 \<le> n \<and> n \<le> 90 then Some (n - 55)
               else None)
      in case v of None \<Rightarrow> None | Some d \<Rightarrow> if d < radix then Some d else None)"

fun parseDigits :: "nat \<Rightarrow> string \<Rightarrow> nat option \<Rightarrow> nat option" where
  "parseDigits radix [] acc = acc"
| "parseDigits radix (c # cs) acc =
     (case digitOf radix c of
        None \<Rightarrow> acc
      | Some d \<Rightarrow> parseDigits radix cs (Some ((case acc of None \<Rightarrow> 0 | Some a \<Rightarrow> a) * radix + d)))"

definition parseInt :: "string \<Rightarrow> int option" where
  "parseInt s =
     (let s1 = dropWhile isStrWhiteSpace s;
          negative = (take 1 s1 = ''-'');
          s2 = (if take 1 s1 = ''-'' \<or> take 1 s1 = ''+'' then drop 1 s1 else s1);
          hex = (take 2 s2 = ''0x'' \<or> take 2 s2 = ''0X'');
          radix = (if hex then 16 else 10);
          s3 = (if hex then drop 2 s2 else s2)
      in case parseDigits radix s3 None of
           None \<Rightarrow> None
         | Some n \<Rightarrow> Some (if negative then - int n else int n))"

text \<open>
  \<^verbatim>\<open>const [yearStr, monthStr] = monthData.monthKey.split("-")\<close>, then \<^verbatim>\<open>parseInt\<close> of
  both; a missing part is \<^verbatim>\<open>undefined\<close>, whose \<^verbatim>\<open>parseInt\<close> is \<^verbatim>\<open>NaN\<close>.
\<close>

definition parseMonthKey :: "string \<Rightarrow> int option \<times> int option" where
  "parseMonthKey k =
     (case splitOn (CHR ''-'') k of
        [] \<Rightarrow> (None, None)
      | [yearStr] \<Rightarrow> (parseInt yearStr, None)
      | yearStr # monthStr # _ \<Rightarrow> (parseInt yearStr, parseInt monthStr))"

record occurrence =
  occ_monthKey :: string
  occ_month :: "int option"
  occ_amount :: rat

datatype timeline_event =
  TimelineEvent (te_event: scenario_event) (te_occurrences: "occurrence list")
    (te_triggeredBy: "string option") (te_children: "timeline_event list")

record timeline_year =
  year :: "int option"
  totalIncome :: rat
  totalExpense :: rat
  netCashflow :: rat
  timelineEvents :: "timeline_event list"

text \<open>
  \<^verbatim>\<open>triggeredEvents.forEach((item) => triggerMap.set(item.event.name, item.triggerEvent))\<close>
\<close>

definition buildTriggerMap :: "triggered_event list \<Rightarrow> (string \<times> string) list" where
  "buildTriggerMap ts =
     foldl (\<lambda>m item. mapSet (name (tr_event item)) (tr_triggerEvent item) m) [] ts"

text \<open>\<^verbatim>\<open>eventsInYear.get(eventName)!.occurrences.push(occ)\<close>\<close>

definition addOccurrence ::
  "string \<Rightarrow> occurrence \<Rightarrow> (string \<times> timeline_event) list \<Rightarrow> (string \<times> timeline_event) list" where
  "addOccurrence eventName occ eventsInYear =
     mapUpdate eventName
       (\<lambda>te. TimelineEvent (te_event te) (te_occurrences te @ [occ]) (te_triggeredBy te)
                (te_children te))
       eventsInYear"

text \<open>The bodies of the two \<^verbatim>\<open>forEach\<close> loops over a month's items.\<close>

definition processStarting ::
  "(string \<times> string) list \<Rightarrow> string \<Rightarrow> int option \<Rightarrow> (string \<times> timeline_event) list
     \<Rightarrow> starting_item \<Rightarrow> (string \<times> timeline_event) list" where
  "processStarting triggerMap k month eventsInYear item =
     (let eventName = name (si_event item);
          m1 = (if \<not> mapHas eventsInYear eventName
                then mapSet eventName
                       (TimelineEvent (si_event item) [] (map_of triggerMap eventName) [])
                       eventsInYear
                else eventsInYear)
      in addOccurrence eventName
           \<lparr>occ_monthKey = k, occ_month = month, occ_amount = si_amount item\<rparr> m1)"

definition processTriggered ::
  "string \<Rightarrow> int option \<Rightarrow> (string \<times> timeline_event) list \<Rightarrow> triggered_item
     \<Rightarrow> (string \<times> timeline_event) list" where
  "processTriggered k month eventsInYear item =
     (let eventName = name (ti_event item);
          m1 = (if \<not> mapHas eventsInYear eventName
                then mapSet eventName
                       (TimelineEvent (ti_event item) [] (Some (ti_triggerEvent item)) [])
                       eventsInYear
                else eventsInYear);
          amt = signedAmount (ti_event item)
      in addOccurrence eventName \<lparr>occ_monthKey = k, occ_month = month, occ_amount = amt\<rparr> m1)"

text \<open>The body of \<^verbatim>\<open>eventFlow.forEach((monthData) => ...)\<close>.\<close>

definition processMonth ::
  "(string \<times> string) list \<Rightarrow> (int option \<times> (string \<times> timeline_event) list) list \<Rightarrow> flow_month
     \<Rightarrow> (int option \<times> (string \<times> timeline_event) list) list" where
  "processMonth triggerMap yearMap monthData =
     (let (yr, month) = parseMonthKey (monthKey monthData);
          ym1 = (if \<not> mapHas yearMap yr then mapSet yr [] yearMap else yearMap)
      in mapUpdate yr
           (\<lambda>eventsInYear.
              foldl (processTriggered (monthKey monthData) month)
                (foldl (processStarting triggerMap (monthKey monthData) month) eventsInYear
                   (startingEvents monthData))
                (triggeredBy monthData))
           ym1)"

text \<open>
  The hierarchy of a year. \<^verbatim>\<open>if (timelineEvent.triggeredBy)\<close> tests a string or
  \<^verbatim>\<open>undefined\<close>: the empty string is falsy as well.
\<close>

definition truthy :: "string option \<Rightarrow> bool" where
  "truthy s = (case s of None \<Rightarrow> False | Some n \<Rightarrow> n \<noteq> [])"

definition hierarchyStep ::
  "timeline_event list \<times> (string \<times> timeline_event list) list \<Rightarrow> timeline_event
     \<Rightarrow> timeline_event list \<times> (string \<times> timeline_event list) list" where
  "hierarchyStep acc timelineEvent =
     (case te_triggeredBy timelineEvent of
        Some parent \<Rightarrow>
          if truthy (Some parent) then
            (fst acc,
             mapUpdate parent (\<lambda>cs. cs @ [timelineEvent])
               (if \<not> mapHas (snd acc) parent then mapSet parent [] (snd acc) else snd acc))
          else (fst acc @ [timelineEvent], snd acc)
      | None \<Rightarrow> (fst acc @ [timelineEvent], snd acc))"

text \<open>
  \<^verbatim>\<open>topLevelEvents.forEach((parent) => {
    parent.children = childEventsMap.get(parent.event.name) || []; })\<close>
  Only the events that are top-level at this point are given children; the objects in the
  arrays of \<^verbatim>\<open>childEventsMap\<close> are never among them, so no stored child changes.
\<close>

definition attachChildren ::
  "(string \<times> timeline_event list) list \<Rightarrow> timeline_event \<Rightarrow> timeline_event" where
  "attachChildren childEventsMap parent =
     TimelineEvent (te_event parent) (te_occurrences parent) (te_triggeredBy parent)
       (case map_of childEventsMap (name (te_event parent)) of None \<Rightarrow> [] | Some cs \<Rightarrow> cs)"

text \<open>
  \<^verbatim>\<open>childEventsMap.forEach((children, parentName) => {
    const hasParentInYear = topLevelEvents.some((e) => e.event.name === parentName);
    if (!hasParentInYear) { topLevelEvents.push(...children); } })\<close>
  The test reads \<^verbatim>\<open>topLevelEvents\<close> as the earlier iterations have extended it.
\<close>

definition orphanStep ::
  "timeline_event list \<Rightarrow> string \<times> timeline_event list \<Rightarrow> timeline_event list" where
  "orphanStep topLevelEvents entry =
     (if list_ex (\<lambda>e. name (te_event e) = fst entry) topLevelEvents then topLevelEvents
      else topLevelEvents @ snd entry)"

text \<open>
  \<^verbatim>\<open>if (occurrence.amount > 0) { totalIncome += occurrence.amount; }
  else { totalExpense += Math.abs(occurrence.amount); }\<close>
  Each \<^verbatim>\<open>+=\<close> is an addition of doubles, and so is the final
  \<^verbatim>\<open>totalIncome - totalExpense\<close>.
\<close>

definition totalsStep :: "rat \<times> rat \<Rightarrow> occurrence \<Rightarrow> rat \<times> rat" where
  "totalsStep acc occ =
     (if occ_amount occ > 0 then (jsAdd (fst acc) (occ_amount occ), snd acc)
      else (fst acc, jsAdd (snd acc) \<bar>occ_amount occ\<bar>))"

definition buildYear :: "int option \<times> (string \<times> timeline_event) list \<Rightarrow> timeline_year" where
  "buildYear entry =
     (let evs = map snd (snd entry);
          (top0, childEventsMap) = foldl hierarchyStep ([], []) evs;
          top1 = map (attachChildren childEventsMap) top0;
          top2 = foldl orphanStep top1 childEventsMap;
          (income, expense) =
            foldl (\<lambda>acc te. foldl totalsStep acc (te_occurrences te)) (0, 0) evs
      in \<lparr>year = fst entry, totalIncome = income, totalExpense = expense,
          netCashflow = jsSub income expense, timelineEvents = top2\<rparr>)"

text \<open>
  \<^verbatim>\<open>.sort((a, b) => a[0] - b[0])\<close>: a stable sort by the comparator. A difference that
  is \<^verbatim>\<open>NaN\<close> counts as zero; the order JavaScript gives to a \<^verbatim>\<open>NaN\<close> key is left to
  the implementation, and nothing below depends on it.
\<close>

fun insertBy :: "('a \<Rightarrow> 'a \<Rightarrow> int) \<Rightarrow> 'a \<Rightarrow> 'a list \<Rightarrow> 'a list" where
  "insertBy cmp x [] = [x]"
| "insertBy cmp x (y # ys) = (if cmp x y < 0 then x # y # ys else y # insertBy cmp x ys)"

definition sortBy :: "('a \<Rightarrow> 'a \<Rightarrow> int) \<Rightarrow> 'a list \<Rightarrow> 'a list" where
  "sortBy cmp xs = foldl (\<lambda>acc x. insertBy cmp x acc) [] xs"

definition compareYears :: "int option \<times> 'v \<Rightarrow> int option \<times> 'v \<Rightarrow> int" where
  "compareYears a b = (case (fst a, fst b) of (Some x, Some y) \<Rightarrow> x - y | _ \<Rightarrow> 0)"

definition transformToTimelineData :: "event_dependency_analysis \<Rightarrow> timeline_year list" where
  "transformToTimelineData analysis =
     (let triggerMap = buildTriggerMap (triggeredEvents analysis);
          yearMap = foldl (processMonth triggerMap) [] (eventFlow analysis)
      in map buildYear (sortBy compareYears yearMap))"








text \<open>The names of the events a year's flow mentions, and the names of a forest's nodes.\<close>

definition yearEventNames :: "flow_month list \<Rightarrow> int option \<Rightarrow> string list" where
  "yearEventNames flow y =
     concat (map (\<lambda>fm. map (\<lambda>i. name (si_event i)) (startingEvents fm)
                        @ map (\<lambda>i. name (ti_event i)) (triggeredBy fm))
              (filter (\<lambda>fm. fst (parseMonthKey (monthKey fm)) = y) flow))"

fun forestNames :: "timeline_event list \<Rightarrow> string list" where
  "forestNames [] = []"
| "forestNames (TimelineEvent e occs tb cs # rest) = name e # forestNames cs @ forestNames rest"


section \<open>Simulation engine\<close>

text \<open>
  Modelled from the spec: \<^verbatim>\<open>isEventActiveInMonth\<close> and \<^verbatim>\<open>runScenario\<close> are defined in
  the engine module, which is not among the sources (its tests are). The definitions below
  follow sections 3, 4.2 and 4.3 of the specification and agree with the expectations of
  the tests. The variant modelled is the one without portfolio tracking, whose result has
  the fields \<^verbatim>\<open>balance\<close> and \<^verbatim>\<open>cashflow\<close>.
\<close>

text \<open>Modelled from the spec: months are compared by their number since year 0.\<close>

definition monthIndex :: "local_date \<Rightarrow> int" where
  "monthIndex dt = year_of dt * 12 + (month_of dt - 1)"

text \<open>
  Modelled from the spec: a one-off event is active in the calendar month of its date; a
  monthly event in every month from the month of its start date to the month of its end
  date (or without end); a yearly event in the months of that range whose month number is
  the start date's. An event without recurrence is not restricted by the calendar.
\<close>

definition isEventActiveInMonth :: "local_date \<Rightarrow> scenario_event \<Rightarrow> bool" where
  "isEventActiveInMonth cur event =
     (case recurrence event of
        None \<Rightarrow> True
      | Some (Once dt) \<Rightarrow> monthIndex dt = monthIndex cur
      | Some (Monthly s e) \<Rightarrow>
          monthIndex s \<le> monthIndex cur
          \<and> (case e of None \<Rightarrow> True | Some e' \<Rightarrow> monthIndex cur \<le> monthIndex e')
      | Some (Yearly s e) \<Rightarrow>
          month_of cur = month_of s \<and> monthIndex s \<le> monthIndex cur
          \<and> (case e of None \<Rightarrow> True | Some e' \<Rightarrow> monthIndex cur \<le> monthIndex e'))"

text \<open>
  Modelled from the spec: the conditions. The date conditions are calendar gates on the
  current month. \<open>networth-is-above\<close> compares the amount with the balance at the end of
  the previous month; \<open>event-happened\<close> looks the name up among the events fired in
  earlier months; \<open>income-is-above\<close> looks at the named event's own candidate firing in the
  current month.
\<close>

fun conditionHolds ::
  "scenario \<Rightarrow> local_date \<Rightarrow> rat \<Rightarrow> string list \<Rightarrow> condition \<Rightarrow> bool" where
  "conditionHolds scn cur prevBalance history (DateIs dt) = (monthIndex dt = monthIndex cur)"
| "conditionHolds scn cur prevBalance history (DateInRange s e) =
     (monthIndex s \<le> monthIndex cur \<and> monthIndex cur \<le> monthIndex e)"
| "conditionHolds scn cur prevBalance history (NetworthIsAbove eventRef amt) =
     (prevBalance \<ge> amt)"
| "conditionHolds scn cur prevBalance history (EventHappened eventName) =
     (eventName \<in> set history)"
| "conditionHolds scn cur prevBalance history (IncomeIsAbove eventName amt) =
     list_ex (\<lambda>e. name e = eventName \<and> isEventActiveInMonth cur e \<and> amount e \<ge> amt)
       (events scn)"

definition isUnlocked :: "scenario \<Rightarrow> local_date \<Rightarrow> rat \<Rightarrow> string list \<Rightarrow> scenario_event \<Rightarrow> bool" where
  "isUnlocked scn cur prevBalance history event =
     (isEventActiveInMonth cur event
      \<and> list_all (conditionHolds scn cur prevBalance history) (unlockedBy event))"

text \<open>
  Modelled from the spec: one month of the simulation. The state threaded through the
  months is the running balance, the names fired so far, and the result under
  construction. The events that are active and unlocked fire, in the order of the
  scenario; their signed amounts add up to the month's net cashflow, which is added to the
  balance; their names join the history that later months read. Assigning
  \<^verbatim>\<open>result.balance[key]\<close> is \<open>mapSet\<close>.
\<close>

record sim_state =
  st_balance :: rat
  st_history :: "string list"
  st_result :: scenario_result

definition simulateMonth :: "scenario \<Rightarrow> sim_state \<Rightarrow> local_date \<Rightarrow> sim_state" where
  "simulateMonth scn st cur =
     (let fired = filter (isUnlocked scn cur (st_balance st) (st_history st)) (events scn);
          netCashflow = sum_list (map signedAmount fired);
          newBalance = st_balance st + netCashflow;
          k = toKeyMonth cur
      in \<lparr>st_balance = newBalance,
          st_history = st_history st @ map name fired,
          st_result =
            \<lparr>balance = mapSet k newBalance (balance (st_result st)),
             cashflow = mapSet k \<lparr>cf_amount = netCashflow, cf_events = fired\<rparr>
                          (cashflow (st_result st))\<rparr>\<rparr>)"

text \<open>
  Modelled from the spec: the run visits the months from the month of the start date to
  the month of the end date, inclusive, and none when the start is after the end; it
  starts from the initial balance and an empty history.
\<close>

definition monthsInRange :: "local_date \<Rightarrow> local_date \<Rightarrow> local_date list" where
  "monthsInRange startDate endDate =
     map (\<lambda>i. addMonthsLD (startOfMonthLD startDate) (int i))
       [0 ..< nat (monthIndex endDate - monthIndex startDate + 1)]"

definition runScenario :: "scenario \<Rightarrow> local_date \<Rightarrow> local_date \<Rightarrow> rat \<Rightarrow> scenario_result" where
  "runScenario scn startDate endDate initialBalance =
     st_result
       (foldl (simulateMonth scn)
          \<lparr>st_balance = initialBalance, st_history = [],
           st_result = \<lparr>balance = [], cashflow = []\<rparr>\<rparr>
          (monthsInRange startDate endDate))"

section \<open>A small scenario used in examples\<close>

text \<open>
  A salary from January 2026, a car bought in January 2026, an insurance that the car
  purchase triggers, and a holiday gated by net worth. The result lists December 2025
  (nothing fired), January and February 2026.
\<close>

definition salary :: scenario_event where
  "salary = \<lparr>name = ''Salary'', etype = Income, amount = 2500,
     recurrence = Some (Monthly (ld 2026 1 1) None), unlockedBy = []\<rparr>"

definition buyCar :: scenario_event where
  "buyCar = \<lparr>name = ''Buy Car'', etype = Expense, amount = 10000,
     recurrence = Some (Once (ld 2026 1 15)), unlockedBy = []\<rparr>"

definition carInsurance :: scenario_event where
  "carInsurance = \<lparr>name = ''Car Insurance'', etype = Expense, amount = 150,
     recurrence = Some (Monthly (ld 2026 1 1) None), unlockedBy = [EventHappened ''Buy Car'']\<rparr>"

definition holidays :: scenario_event where
  "holidays = \<lparr>name = ''Holidays'', etype = Expense, amount = 4000,
     recurrence = None, unlockedBy = [NetworthIsAbove ''Salary'' 6000]\<rparr>"

definition carScenario :: scenario where
  "carScenario = \<lparr>scenario_name = ''Car'', events = [salary, buyCar, carInsurance, holidays]\<rparr>"

definition carResult :: scenario_result where
  "carResult =
     \<lparr>balance = [(''2025-12'', 0), (''2026-01'', - 7500), (''2026-02'', - 5150)],
      cashflow =
        [(''2025-12'', \<lparr>cf_amount = 0, cf_events = []\<rparr>),
         (''2026-01'', \<lparr>cf_amount = - 7500, cf_events = [salary, buyCar]\<rparr>),
         (''2026-02'', \<lparr>cf_amount = 2350, cf_events = [salary, carInsurance]\<rparr>)]\<rparr>"



text \<open>The analysis of the car scenario, as the analyzer returns it.\<close>

definition carAnalysis :: event_dependency_analysis where
  "carAnalysis =
     \<lparr>independentEvents = [salary, buyCar],
      conditionalEvents = [\<lparr>ce_event = holidays, ce_conditions = [''When net worth > $6,000'']\<rparr>],
      triggeredEvents =
        [\<lparr>tr_event = carInsurance, tr_triggerEvent = ''Buy Car'', tr_firedAt = Some ''2026-02''\<rparr>],
      eventFlow =
        [\<lparr>monthKey = ''2026-01'',
          startingEvents = [\<lparr>si_event = salary, si_amount = 2500\<rparr>,
                            \<lparr>si_event = buyCar, si_amount = - 10000\<rparr>],
          triggeredBy = []\<rparr>,
         \<lparr>monthKey = ''2026-02'',
          startingEvents = [\<lparr>si_event = salary, si_amount = 2500\<rparr>],
          triggeredBy = [\<lparr>ti_event = carInsurance, ti_triggerEvent = ''Buy Car''\<rparr>]\<rparr>]\<rparr>"

text \<open>
  An analysis with a chain of triggers (the car purchase triggers the insurance and the
  maintenance, the insurance triggers a roadside cover), and one with two events that
  trigger each other.
\<close>

definition carMaintenance :: scenario_event where
  "carMaintenance = \<lparr>name = ''Car Maintenance'', etype = Expense, amount = 600,
     recurrence = Some (Yearly (ld 2026 1 1) None), unlockedBy = [EventHappened ''Buy Car'']\<rparr>"

definition roadsideCover :: scenario_event where
  "roadsideCover = \<lparr>name = ''Roadside Cover'', etype = Expense, amount = 10,
     recurrence = Some (Monthly (ld 2026 1 1) None),
     unlockedBy = [EventHappened ''Car Insurance'']\<rparr>"

definition cascadeAnalysis :: event_dependency_analysis where
  "cascadeAnalysis =
     \<lparr>independentEvents = [buyCar], conditionalEvents = [],
      triggeredEvents =
        [\<lparr>tr_event = carInsurance, tr_triggerEvent = ''Buy Car'', tr_firedAt = Some ''2026-02''\<rparr>,
         \<lparr>tr_event = carMaintenance, tr_triggerEvent = ''Buy Car'', tr_firedAt = None\<rparr>,
         \<lparr>tr_event = roadsideCover, tr_triggerEvent = ''Car Insurance'',
          tr_firedAt = Some ''2026-03''\<rparr>],
      eventFlow = []\<rparr>"

definition alpha :: scenario_event where
  "alpha = \<lparr>name = ''Alpha'', etype = Expense, amount = 1,
     recurrence = None, unlockedBy = [EventHappened ''Beta'']\<rparr>"

definition beta :: scenario_event where
  "beta = \<lparr>name = ''Beta'', etype = Expense, amount = 1,
     recurrence = None, unlockedBy = [EventHappened ''Alpha'']\<rparr>"

definition cyclicAnalysis :: event_dependency_analysis where
  "cyclicAnalysis =
     \<lparr>independentEvents = [], conditionalEvents = [],
      triggeredEvents =
        [\<lparr>tr_event = alpha, tr_triggerEvent = ''Beta'', tr_firedAt = None\<rparr>,
         \<lparr>tr_event = beta, tr_triggerEvent = ''Alpha'', tr_firedAt = None\<rparr>],
      eventFlow = []\<rparr>"


text \<open>
  A house bought in November 2027 triggers a mortgage payment, and the mortgage payment
  triggers a mortgage insurance. The flow is the one the analyzer builds when the house is
  bought in November, the mortgage starts in December and the insurance in January 2028.
\<close>

definition buyHouse :: scenario_event where
  "buyHouse = \<lparr>name = ''Buy House'', etype = Expense, amount = 60000,
     recurrence = Some (Once (ld 2027 11 1)), unlockedBy = []\<rparr>"

definition mortgage :: scenario_event where
  "mortgage = \<lparr>name = ''Mortgage Payment'', etype = Expense, amount = 1200,
     recurrence = Some (Monthly (ld 2027 11 1) None), unlockedBy = [EventHappened ''Buy House'']\<rparr>"

definition mortgageInsurance :: scenario_event where
  "mortgageInsurance = \<lparr>name = ''Mortgage Insurance'', etype = Expense, amount = 50,
     recurrence = Some (Monthly (ld 2027 11 1) None),
     unlockedBy = [EventHappened ''Mortgage Payment'']\<rparr>"

definition houseScenario :: scenario where
  "houseScenario =
     \<lparr>scenario_name = ''House'', events = [buyHouse, mortgage, mortgageInsurance]\<rparr>"

definition houseResult :: scenario_result where
  "houseResult =
     \<lparr>balance = [(''2027-11'', - 60000), (''2027-12'', - 61200), (''2028-01'', - 62450)],
      cashflow =
        [(''2027-11'', \<lparr>cf_amount = - 60000, cf_events = [buyHouse]\<rparr>),
         (''2027-12'', \<lparr>cf_amount = - 1200, cf_events = [mortgage]\<rparr>),
         (''2028-01'', \<lparr>cf_amount = - 1250, cf_events = [mortgage, mortgageInsurance]\<rparr>)]\<rparr>"

definition houseAnalysis :: event_dependency_analysis where
  "houseAnalysis =
     \<lparr>independentEvents = [buyHouse], conditionalEvents = [],
      triggeredEvents =
        [\<lparr>tr_event = mortgage, tr_triggerEvent = ''Buy House'', tr_firedAt = Some ''2027-12''\<rparr>,
         \<lparr>tr_event = mortgageInsurance, tr_triggerEvent = ''Mortgage Payment'',
          tr_firedAt = Some ''2028-01''\<rparr>],
      eventFlow =
        [\<lparr>monthKey = ''2027-11'',
          startingEvents = [\<lparr>si_event = buyHouse, si_amount = - 60000\<rparr>], triggeredBy = []\<rparr>,
         \<lparr>monthKey = ''2027-12'', startingEvents = [],
          triggeredBy = [\<lparr>ti_event = mortgage, ti_triggerEvent = ''Buy House''\<rparr>]\<rparr>,
         \<lparr>monthKey = ''2028-01'', startingEvents = [],
          triggeredBy =
            [\<lparr>ti_event = mortgage, ti_triggerEvent = ''Buy House''\<rparr>,
             \<lparr>ti_event = mortgageInsurance, ti_triggerEvent = ''Mortgage Payment''\<rparr>]\<rparr>]\<rparr>"


text \<open>
  Three one-off events of January 2026 whose amounts are the doubles written \<^verbatim>\<open>0.1\<close>,
  \<^verbatim>\<open>0.3\<close> and \<^verbatim>\<open>0.2\<close>, and the analysis of that scenario.
\<close>

definition tip :: scenario_event where
  "tip = \<lparr>name = ''Tip'', etype = Income, amount = roundToDouble (1 / 10),
     recurrence = Some (Once (ld 2026 1 5)), unlockedBy = []\<rparr>"

definition fee :: scenario_event where
  "fee = \<lparr>name = ''Fee'', etype = Expense, amount = roundToDouble (3 / 10),
     recurrence = Some (Once (ld 2026 1 6)), unlockedBy = []\<rparr>"

definition refund :: scenario_event where
  "refund = \<lparr>name = ''Refund'', etype = Income, amount = roundToDouble (2 / 10),
     recurrence = Some (Once (ld 2026 1 7)), unlockedBy = []\<rparr>"

definition fractionScenario :: scenario where
  "fractionScenario = \<lparr>scenario_name = ''Fractions'', events = [tip, fee, refund]\<rparr>"

definition fractionResult :: scenario_result where
  "fractionResult =
     \<lparr>balance = [(''2026-01'', 1 / 36028797018963968)],
      cashflow =
        [(''2026-01'', \<lparr>cf_amount = 1 / 36028797018963968, cf_events = [tip, fee, refund]\<rparr>)]\<rparr>"

definition fractionAnalysis :: event_dependency_analysis where
  "fractionAnalysis =
     \<lparr>independentEvents = [tip, fee, refund], conditionalEvents = [], triggeredEvents = [],
      eventFlow =
        [\<lparr>monthKey = ''2026-01'',
          startingEvents = [\<lparr>si_event = tip, si_amount = roundToDouble (1 / 10)\<rparr>,
                            \<lparr>si_event = fee, si_amount = - roundToDouble (3 / 10)\<rparr>,
                            \<lparr>si_event = refund, si_amount = roundToDouble (2 / 10)\<rparr>],
          triggeredBy = []\<rparr>]\<rparr>"

text \<open>
  The scenario of the engine's test of the balance condition: a monthly salary of 2000
  from January 2025 and a holiday of 4000, built without recurrence, that is unlocked when
  the net worth is at least 6000.
\<close>

definition salary2000 :: scenario_event where
  "salary2000 = \<lparr>name = ''Salary'', etype = Income, amount = 2000,
     recurrence = Some (Monthly (ld 2025 1 1) None), unlockedBy = []\<rparr>"

definition holidayScenario :: scenario where
  "holidayScenario = \<lparr>scenario_name = [], events = [salary2000, holidays]\<rparr>"

section \<open>Month-offset arithmetic\<close>

lemma js_month_normalised:
  fixes total :: int
  shows "1 \<le> (((total smod 12) + 12) smod 12) + 1 \<and> (((total smod 12) + 12) smod 12) + 1 \<le> 12"
proof -
  have a: "\<bar>total smod 12\<bar> < 12"
    by (simp add: smod_int_alt_def abs_mult abs_sgn_eq)
  then have b: "0 \<le> total smod 12 + 12" by linarith
  have "(total smod 12 + 12) smod 12 = (total smod 12 + 12) mod 12"
    using b by (simp add: smod_int_alt_def sgn_if)
  then show ?thesis by simp
qed

text \<open>
  C8. For every date and every integer offset (positive, zero or negative),
  \<open>addMonthsLD\<close> returns a date whose day field is the input's day field unchanged
  (there is no clamping to the length of the target month), and whose month field lies
  in 1..12.
\<close>

theorem addMonthsLD_keeps_day:
  "day_of (addMonthsLD dt n) = day_of dt
   \<and> 1 \<le> month_of (addMonthsLD dt n) \<and> month_of (addMonthsLD dt n) \<le> 12"
  using js_month_normalised [of "month_of dt - 1 + n"]
  by (simp add: addMonthsLD_def Let_def)

section \<open>Month keys\<close>

declare natToString.simps [simp del]

lemma nat_lt10_cases:
  assumes "(a::nat) < 10"
  shows "a = 0 \<or> a = 1 \<or> a = 2 \<or> a = 3 \<or> a = 4 \<or> a = 5 \<or> a = 6 \<or> a = 7 \<or> a = 8 \<or> a = 9"
proof -
  have "a \<in> {0..<10}" using assms by simp
  also have "{0..<10::nat} = {0, 1, 2, 3, 4, 5, 6, 7, 8, 9}"
    by (simp only: atLeastLessThan_nat_numeral pred_numeral_simps BitM.simps) auto
  finally show ?thesis by blast
qed

lemma of_char_digitChar:
  assumes "a < 10"
  shows "of_char (digitChar a) = (48 + a :: nat)"
  using nat_lt10_cases [OF assms] by (auto simp: digitChar_def)

lemma seven_chars:
  "length [c0, c1, c2, c3, c4, c5, c6] = 7"
  "take 4 [c0, c1, c2, c3, c4, c5, c6] = [c0, c1, c2, c3]"
  "[c0, c1, c2, c3, c4, c5, c6] ! 4 = c4"
  "drop 5 [c0, c1, c2, c3, c4, c5, c6] = [c5, c6]"
  by (simp_all add: numeral_eq_Suc)

lemma digitChar_less: "a < 10 \<Longrightarrow> b < 10 \<Longrightarrow> (digitChar a < digitChar b) = (a < b)"
  by (simp add: less_char_def of_char_digitChar del: less_char_simp)

lemma digitChar_eq: "a < 10 \<Longrightarrow> b < 10 \<Longrightarrow> (digitChar a = digitChar b) = (a = b)"
  by (metis of_char_digitChar add_left_cancel)

lemma padStart4:
  "padStart 4 c [x] = [c, c, c, x]"
  "padStart 4 c [w, x] = [c, c, w, x]"
  "padStart 4 c [v, w, x] = [c, v, w, x]"
  "padStart 4 c [u, v, w, x] = [u, v, w, x]"
  by (simp_all add: padStart_def numeral_eq_Suc)

lemma padStart2:
  "padStart 2 c [x] = [c, x]"
  "padStart 2 c [w, x] = [w, x]"
  by (simp_all add: padStart_def numeral_eq_Suc)

lemma natToString_small: "n < 10 \<Longrightarrow> natToString n = [digitChar n]"
  by (simp add: natToString.simps [of n])

lemma natToString_step: "10 \<le> n \<Longrightarrow> natToString n = natToString (n div 10) @ [digitChar (n mod 10)]"
  by (simp add: natToString.simps [of n])

lemma digitChar_0: "digitChar 0 = CHR ''0''" by (simp add: digitChar_def)

lemma natToString_4:
  assumes "n < 10000"
  shows "padStart 4 (CHR ''0'') (natToString n) =
     [digitChar (n div 1000), digitChar (n div 100 mod 10), digitChar (n div 10 mod 10), digitChar (n mod 10)]"
proof -
  consider "n < 10" | "10 \<le> n" "n < 100" | "100 \<le> n" "n < 1000" | "1000 \<le> n" "n < 10000"
    using assms by linarith
  then show ?thesis
  proof cases
    case 1
    then show ?thesis by (simp add: natToString_small padStart4 digitChar_0)
  next
    case 2
    then have "n div 10 < 10" by simp
    with 2 show ?thesis 
      by (simp add: natToString_step natToString_small padStart4 digitChar_0)
  next
    case 3
    then have a: "10 \<le> n div 10" "n div 10 div 10 < 10" by auto
    have b: "n div 10 div 10 = n div 100" by (simp add: div_mult2_eq[symmetric])
    have c: "n div 1000 = 0" using 3 by simp
    from 3 a show ?thesis 
      by (simp add: natToString_step natToString_small padStart4 b c digitChar_0)
  next
    case 4
    then have a: "10 \<le> n div 10" "10 \<le> n div 10 div 10" "n div 10 div 10 div 10 < 10" by auto
    have b: "n div 10 div 10 = n div 100" "n div 100 div 10 = n div 1000" by (simp_all add: div_mult2_eq[symmetric])
    from 4 a show ?thesis 
      by (simp add: natToString_step natToString_small padStart4 b)
  qed
qed

lemma natToString_2:
  assumes "n < 100"
  shows "padStart 2 (CHR ''0'') (natToString n) = [digitChar (n div 10), digitChar (n mod 10)]"
proof (cases "n < 10")
  case True
  then show ?thesis by (simp add: natToString_small padStart2 digitChar_0)
next
  case False
  with assms have "n div 10 < 10" by simp
  with False show ?thesis by (simp add: natToString_step natToString_small padStart2)
qed

lemma toKeyMonth_digits:
  assumes "0 \<le> y" "y \<le> 9999" "1 \<le> m" "m \<le> 12"
  shows "toKeyMonth (ld y m dd) =
     [digitChar (nat y div 1000), digitChar (nat y div 100 mod 10), digitChar (nat y div 10 mod 10),
      digitChar (nat y mod 10), CHR ''-'', digitChar (nat m div 10), digitChar (nat m mod 10)]"
proof -
  have "nat y < 10000" "nat m < 100" using assms by auto
  then show ?thesis using assms
    by (simp add: toKeyMonth_def numberToString_def natToString_4 natToString_2)
qed

lemma lex_step10:
  fixes qa ra qb rb :: nat
  assumes "ra < 10" "rb < 10"
  shows "(10 * qa + ra < 10 * qb + rb) = (qa < qb \<or> qa = qb \<and> ra < rb)"
  using assms by linarith

lemma less_div_mod10:
  fixes a b :: nat
  shows "(a < b) = (a div 10 < b div 10 \<or> a div 10 = b div 10 \<and> a mod 10 < b mod 10)"
proof -
  have "(10 * (a div 10) + a mod 10 < 10 * (b div 10) + b mod 10)
      = (a div 10 < b div 10 \<or> a div 10 = b div 10 \<and> a mod 10 < b mod 10)"
    by (rule lex_step10) simp_all
  then show ?thesis by (simp only: mult_div_mod_eq)
qed

lemma eq_div_mod10:
  fixes a b :: nat
  shows "(a = b) = (a div 10 = b div 10 \<and> a mod 10 = b mod 10)"
proof
  assume "a div 10 = b div 10 \<and> a mod 10 = b mod 10"
  then have "a div 10 * 10 + a mod 10 = b div 10 * 10 + b mod 10" by simp
  then show "a = b" by (simp only: div_mult_mod_eq)
qed simp

lemma div10_div10: "(n::nat) div 10 div 10 = n div 100" "(n::nat) div 100 div 10 = n div 1000"
  by (simp_all add: div_mult2_eq [symmetric])

lemma lex4_arith:
  fixes a b :: nat
  shows "(a div 1000 < b div 1000 \<or>
      a div 1000 = b div 1000 \<and>
      (a div 100 mod 10 < b div 100 mod 10 \<or>
       a div 100 mod 10 = b div 100 mod 10 \<and>
       (a div 10 mod 10 < b div 10 mod 10 \<or>
        a div 10 mod 10 = b div 10 mod 10 \<and>
        (a mod 10 < b mod 10 \<or> a mod 10 = b mod 10 \<and> P)))) = (a < b \<or> (a = b \<and> P))"
proof -
  have l1: "(a < b) = (a div 10 < b div 10 \<or> a div 10 = b div 10 \<and> a mod 10 < b mod 10)"
    by (rule less_div_mod10)
  have l2: "(a div 10 < b div 10) = (a div 100 < b div 100 \<or> a div 100 = b div 100 \<and> a div 10 mod 10 < b div 10 mod 10)"
    using less_div_mod10 [of "a div 10" "b div 10"] by (simp only: div10_div10)
  have l3: "(a div 100 < b div 100) = (a div 1000 < b div 1000 \<or> a div 1000 = b div 1000 \<and> a div 100 mod 10 < b div 100 mod 10)"
    using less_div_mod10 [of "a div 100" "b div 100"] by (simp only: div10_div10)
  have e1: "(a = b) = (a div 10 = b div 10 \<and> a mod 10 = b mod 10)"
    by (rule eq_div_mod10)
  have e2: "(a div 10 = b div 10) = (a div 100 = b div 100 \<and> a div 10 mod 10 = b div 10 mod 10)"
    using eq_div_mod10 [of "a div 10" "b div 10"] by (simp only: div10_div10)
  have e3: "(a div 100 = b div 100) = (a div 1000 = b div 1000 \<and> a div 100 mod 10 = b div 100 mod 10)"
    using eq_div_mod10 [of "a div 100" "b div 100"] by (simp only: div10_div10)
  have L: "(a < b) = (a div 1000 < b div 1000 \<or>
      a div 1000 = b div 1000 \<and>
      (a div 100 mod 10 < b div 100 mod 10 \<or>
       a div 100 mod 10 = b div 100 mod 10 \<and>
       (a div 10 mod 10 < b div 10 mod 10 \<or>
        a div 10 mod 10 = b div 10 mod 10 \<and> a mod 10 < b mod 10)))"
    using l1 l2 l3 e2 e3 by blast
  have E: "(a = b) = (a div 1000 = b div 1000 \<and> a div 100 mod 10 = b div 100 mod 10 \<and>
       a div 10 mod 10 = b div 10 mod 10 \<and> a mod 10 = b mod 10)"
    using e1 e2 e3 by blast
  show ?thesis unfolding L E by blast
qed

lemma digits4_less:
  fixes a b :: nat
  assumes "a < 10000" "b < 10000"
  shows "(digitChar (a div 1000) # digitChar (a div 100 mod 10) # digitChar (a div 10 mod 10) # digitChar (a mod 10) # xs
        < digitChar (b div 1000) # digitChar (b div 100 mod 10) # digitChar (b div 10 mod 10) # digitChar (b mod 10) # ys)
      = (a < b \<or> (a = b \<and> xs < ys))"
proof -
  have d: "a div 1000 < 10" "b div 1000 < 10" using assms by auto
  have e: "a div 100 mod 10 < 10" "b div 100 mod 10 < 10" "a div 10 mod 10 < 10" "b div 10 mod 10 < 10" 
     "a mod 10 < 10" "b mod 10 < 10" by auto
  show ?thesis
    by (simp only: Cons_less_Cons digitChar_less digitChar_eq d e lex4_arith)
qed

lemma digits2_less:
  fixes a b :: nat
  assumes "a < 100" "b < 100"
  shows "([digitChar (a div 10), digitChar (a mod 10)] < [digitChar (b div 10), digitChar (b mod 10)]) = (a < b)"
proof -
  have d: "a div 10 < 10" "b div 10 < 10" "a mod 10 < 10" "b mod 10 < 10" using assms by auto
  show ?thesis
    unfolding less_div_mod10 [of a b]
    by (simp add: digitChar_less digitChar_eq d del: less_char_simp)
qed

lemma toKeyMonth_less:
  assumes "0 \<le> y" "y \<le> 9999" "1 \<le> m" "m \<le> 12" "0 \<le> y'" "y' \<le> 9999" "1 \<le> m'" "m' \<le> 12"
  shows "(toKeyMonth (ld y m dd) < toKeyMonth (ld y' m' dd')) = (y < y' \<or> y = y' \<and> m < m')"
proof -
  have b: "nat y < 10000" "nat y' < 10000" "nat m < 100" "nat m' < 100" using assms by auto
  have "(toKeyMonth (ld y m dd) < toKeyMonth (ld y' m' dd')) =
     (nat y < nat y' \<or> nat y = nat y' \<and> 
        [digitChar (nat m div 10), digitChar (nat m mod 10)] < [digitChar (nat m' div 10), digitChar (nat m' mod 10)])"
    by (simp only: toKeyMonth_digits assms digits4_less [OF b(1,2)]) (simp del: less_char_simp)
  also have "\<dots> = (nat y < nat y' \<or> nat y = nat y' \<and> nat m < nat m')"
    by (simp only: digits2_less [OF b(3,4)])
  also have "\<dots> = (y < y' \<or> y = y' \<and> m < m')" using assms by auto
  finally show ?thesis .
qed

lemma toKeyMonth_eq:
  assumes "0 \<le> y" "y \<le> 9999" "1 \<le> m" "m \<le> 12" "0 \<le> y'" "y' \<le> 9999" "1 \<le> m'" "m' \<le> 12"
  shows "(toKeyMonth (ld y m dd) = toKeyMonth (ld y' m' dd')) = (y = y' \<and> m = m')"
proof
  assume eq: "toKeyMonth (ld y m dd) = toKeyMonth (ld y' m' dd')"
  have "\<not> (y < y' \<or> y = y' \<and> m < m')"
    using toKeyMonth_less [OF assms, of dd dd'] eq by simp
  moreover have "\<not> (y' < y \<or> y' = y \<and> m' < m)"
    using toKeyMonth_less [OF assms(5-8) assms(1-4), of dd' dd] eq by simp
  ultimately show "y = y' \<and> m = m'" by linarith
next
  assume "y = y' \<and> m = m'"
  then show "toKeyMonth (ld y m dd) = toKeyMonth (ld y' m' dd')"
    by (simp add: toKeyMonth_def)
qed


text \<open>
  C9. For dates whose year is in 0..9999 and whose month is in 1..12 the month-key has
  exactly seven characters: the four decimal digits of the year (zero padded), a dash and
  the two decimal digits of the month (zero padded). For two such dates, comparing the
  keys as strings (lexicographically, character by character) gives the same answer as
  comparing the (year, month) pairs chronologically, and the keys are equal exactly when
  year and month are.
\<close>

theorem toKeyMonth_format_and_order:
  assumes "0 \<le> year_of a" "year_of a \<le> 9999" "1 \<le> month_of a" "month_of a \<le> 12"
    and "0 \<le> year_of b" "year_of b \<le> 9999" "1 \<le> month_of b" "month_of b \<le> 12"
  shows "length (toKeyMonth a) = 7
    \<and> take 4 (toKeyMonth a) =
        [digitChar (nat (year_of a) div 1000), digitChar (nat (year_of a) div 100 mod 10),
         digitChar (nat (year_of a) div 10 mod 10), digitChar (nat (year_of a) mod 10)]
    \<and> toKeyMonth a ! 4 = CHR ''-''
    \<and> drop 5 (toKeyMonth a) =
        [digitChar (nat (month_of a) div 10), digitChar (nat (month_of a) mod 10)]
    \<and> (toKeyMonth a < toKeyMonth b \<longleftrightarrow>
         year_of a < year_of b \<or> year_of a = year_of b \<and> month_of a < month_of b)
    \<and> (toKeyMonth a = toKeyMonth b \<longleftrightarrow>
         year_of a = year_of b \<and> month_of a = month_of b)"
proof -
  obtain y m dd where a: "a = ld y m dd" by (cases a)
  obtain y' m' dd' where b: "b = ld y' m' dd'" by (cases b)
  have ra: "0 \<le> y" "y \<le> 9999" "1 \<le> m" "m \<le> 12" using assms(1-4) by (simp_all add: a)
  have rb: "0 \<le> y'" "y' \<le> 9999" "1 \<le> m'" "m' \<le> 12" using assms(5-8) by (simp_all add: b)
  have fmt: "toKeyMonth (ld y m dd) =
     [digitChar (nat y div 1000), digitChar (nat y div 100 mod 10), digitChar (nat y div 10 mod 10),
      digitChar (nat y mod 10), CHR ''-'', digitChar (nat m div 10), digitChar (nat m mod 10)]"
    by (rule toKeyMonth_digits [OF ra])
  have "length (toKeyMonth a) = 7" by (simp only: a fmt seven_chars)
  moreover have "take 4 (toKeyMonth a) =
        [digitChar (nat (year_of a) div 1000), digitChar (nat (year_of a) div 100 mod 10),
         digitChar (nat (year_of a) div 10 mod 10), digitChar (nat (year_of a) mod 10)]"
    by (simp only: fmt seven_chars a local_date.sel)
  moreover have "toKeyMonth a ! 4 = CHR ''-''" by (simp only: a fmt seven_chars)
  moreover have "drop 5 (toKeyMonth a) =
        [digitChar (nat (month_of a) div 10), digitChar (nat (month_of a) mod 10)]"
    by (simp only: fmt seven_chars a local_date.sel)
  moreover have "toKeyMonth a < toKeyMonth b \<longleftrightarrow>
         year_of a < year_of b \<or> year_of a = year_of b \<and> month_of a < month_of b"
    using toKeyMonth_less [OF ra rb, of dd dd'] by (simp add: a b)
  moreover have "toKeyMonth a = toKeyMonth b \<longleftrightarrow>
         year_of a = year_of b \<and> month_of a = month_of b"
    using toKeyMonth_eq [OF ra rb, of dd dd'] by (simp add: a b)
  ultimately show ?thesis by blast
qed

theorem toKeyMonth_format_and_order_witness:
  "length (toKeyMonth (ld 2025 12 31)) = 7
   \<and> take 4 (toKeyMonth (ld 2025 12 31)) = ''2025''
   \<and> toKeyMonth (ld 2025 12 31) ! 4 = CHR ''-''
   \<and> drop 5 (toKeyMonth (ld 2025 12 31)) = ''12''
   \<and> toKeyMonth (ld 2025 12 31) < toKeyMonth (ld 2026 1 1)
   \<and> toKeyMonth (ld 2025 12 31) \<noteq> toKeyMonth (ld 2026 1 1)"
  using toKeyMonth_format_and_order [of "ld 2025 12 31" "ld 2026 1 1"]
  by (simp add: digitChar_def)


section \<open>Month keys are injective\<close>


lemma natToString_nonempty: "natToString n \<noteq> []"
  by (cases "n < 10") (simp_all add: natToString_small natToString_step [of n])

lemma natToString_length_ge2: "10 \<le> n \<Longrightarrow> 2 \<le> length (natToString n)"
proof -
  assume n: "10 \<le> n"
  have "length (natToString n) = length (natToString (n div 10)) + 1"
    by (simp add: natToString_step [OF n])
  moreover have "length (natToString (n div 10)) \<noteq> 0"
    using natToString_nonempty [of "n div 10"] by simp
  ultimately show ?thesis by linarith
qed

lemma natToString_inj: "natToString n = natToString m \<Longrightarrow> n = m"
proof (induction n arbitrary: m rule: less_induct)
  case (less n)
  show ?case
  proof (cases "n < 10")
    case True
    note n = this
    show ?thesis
    proof (cases "m < 10")
      case True
      with n less.prems show ?thesis by (simp add: natToString_small digitChar_eq)
    next
      case False
      then have "2 \<le> length (natToString m)" by (simp add: natToString_length_ge2)
      moreover have "length (natToString n) = 1" using n by (simp add: natToString_small)
      ultimately show ?thesis using less.prems by simp
    qed
  next
    case False
    note n = this
    show ?thesis
    proof (cases "m < 10")
      case True
      from n have "2 \<le> length (natToString n)" by (simp add: natToString_length_ge2)
      moreover have "length (natToString m) = 1" using True by (simp add: natToString_small)
      ultimately show ?thesis using less.prems by simp
    next
      case False
      with n less.prems have e: "natToString (n div 10) = natToString (m div 10)"
          "digitChar (n mod 10) = digitChar (m mod 10)"
        by (simp_all add: natToString_step [of n] natToString_step [of m])
      from n have "n div 10 < n" by simp
      from less.IH [OF this e(1)] have "n div 10 = m div 10" .
      moreover from e(2) have "n mod 10 = m mod 10" by (simp add: digitChar_eq)
      ultimately show ?thesis by (metis div_mult_mod_eq)
    qed
  qed
qed

lemma natToString_leading_zero: "natToString n = CHR ''0'' # rest \<Longrightarrow> n = 0"
proof (induction n arbitrary: rest rule: less_induct)
  case (less n)
  show ?case
  proof (cases "n < 10")
    case True
    with less.prems have "digitChar n = digitChar 0" by (simp add: natToString_small digitChar_0)
    with True show ?thesis by (simp add: digitChar_eq)
  next
    case False
    obtain c cs where s: "natToString (n div 10) = c # cs"
      using natToString_nonempty [of "n div 10"] by (cases "natToString (n div 10)") auto
    with False less.prems have "c = CHR ''0''" by (simp add: natToString_step [of n])
    with s have "natToString (n div 10) = CHR ''0'' # cs" by simp
    moreover from False have "n div 10 < n" by simp
    ultimately have "n div 10 = 0" by (rule less.IH [rotated])
    with False show ?thesis by simp
  qed
qed

lemma digitChar_not_minus: "digitChar a \<noteq> CHR ''-''"
proof -
  have "of_char (digitChar (a mod 10)) = (48 + a mod 10 :: nat)"
    by (rule of_char_digitChar) simp
  moreover have "digitChar (a mod 10) = digitChar a" by (simp add: digitChar_def)
  ultimately have "of_char (digitChar a) \<noteq> (45 :: nat)" by simp
  then show ?thesis by auto
qed

lemma natToString_hd_not_minus: "natToString n \<noteq> CHR ''-'' # rest"
proof (induction n arbitrary: rest rule: less_induct)
  case (less n)
  show ?case
  proof (cases "n < 10")
    case True
    then show ?thesis by (simp add: natToString_small digitChar_not_minus)
  next
    case False
    obtain c cs where s: "natToString (n div 10) = c # cs"
      using natToString_nonempty [of "n div 10"] by (cases "natToString (n div 10)") auto
    from False have "n div 10 < n" by simp
    from less.IH [OF this, of cs] s have "c \<noteq> CHR ''-''" by auto
    with s False show ?thesis by (simp add: natToString_step [of n])
  qed
qed

lemma numberToString_inj: "numberToString a = numberToString b \<Longrightarrow> a = b"
proof -
  assume e: "numberToString a = numberToString b"
  show ?thesis
  proof (cases "a < 0")
    case True
    note a = this
    show ?thesis
    proof (cases "b < 0")
      case True
      with a e have "nat (- a) = nat (- b)" by (simp add: numberToString_def natToString_inj)
      with a True show ?thesis by simp
    next
      case False
      with a e natToString_hd_not_minus [of "nat b" "natToString (nat (- a))"] show ?thesis
        by (simp add: numberToString_def)
    qed
  next
    case False
    note a = this
    show ?thesis
    proof (cases "b < 0")
      case True
      with a e natToString_hd_not_minus [of "nat a" "natToString (nat (- b))"] show ?thesis
        by (simp add: numberToString_def)
    next
      case False
      with a e have "nat a = nat b" by (simp add: numberToString_def natToString_inj)
      with a False show ?thesis by simp
    qed
  qed
qed

lemma numberToString_nonempty: "numberToString a \<noteq> []"
  by (simp add: numberToString_def natToString_nonempty)

lemma numberToString_leading_zero:
  "numberToString a = CHR ''0'' # rest \<Longrightarrow> rest = []"
proof -
  assume e: "numberToString a = CHR ''0'' # rest"
  then have n: "\<not> a < 0" by (auto simp: numberToString_def)
  with e have "natToString (nat a) = CHR ''0'' # rest" by (simp add: numberToString_def)
  then have "nat a = 0" by (rule natToString_leading_zero)
  with \<open>natToString (nat a) = CHR ''0'' # rest\<close> show ?thesis
    by (simp add: natToString_small digitChar_0)
qed

lemma replicate_append_shift:
  assumes "replicate p z @ s = replicate q z @ t" "p \<le> q"
  shows "s = replicate (q - p) z @ t"
proof -
  from assms(2) have "replicate q z = replicate p z @ replicate (q - p) z"
    by (simp add: replicate_add [symmetric])
  with assms(1) show ?thesis by simp
qed

lemma pad_shift_impossible:
  assumes "numberToString a = replicate k (CHR ''0'') @ numberToString b"
  shows "k = 0"
proof (rule ccontr)
  assume "k \<noteq> 0"
  then obtain k' where k: "k = Suc k'" by (cases k) auto
  with assms have "numberToString a = CHR ''0'' # (replicate k' (CHR ''0'') @ numberToString b)"
    by simp
  then have "replicate k' (CHR ''0'') @ numberToString b = []"
    by (rule numberToString_leading_zero)
  then show False by (simp add: numberToString_nonempty)
qed

lemma padStart_numberToString_inj:
  assumes "padStart k (CHR ''0'') (numberToString a) = padStart k (CHR ''0'') (numberToString b)"
  shows "a = b"
proof -
  let ?p = "k - length (numberToString a)" and ?q = "k - length (numberToString b)"
  from assms have e: "replicate ?p (CHR ''0'') @ numberToString a
      = replicate ?q (CHR ''0'') @ numberToString b"
    by (simp add: padStart_def)
  have "numberToString a = numberToString b"
  proof (cases "?p \<le> ?q")
    case True
    from replicate_append_shift [OF e True]
    have s: "numberToString a = replicate (?q - ?p) (CHR ''0'') @ numberToString b" .
    then have "?q - ?p = 0" by (rule pad_shift_impossible)
    with s show ?thesis by simp
  next
    case False
    then have le: "?q \<le> ?p" by simp
    from replicate_append_shift [OF e [symmetric] le]
    have s: "numberToString b = replicate (?p - ?q) (CHR ''0'') @ numberToString a" .
    then have "?p - ?q = 0" by (rule pad_shift_impossible)
    with s show ?thesis by simp
  qed
  then show ?thesis by (rule numberToString_inj)
qed

lemma toKeyMonth_inj:
  assumes "1 \<le> m" "m \<le> 12" "1 \<le> m'" "m' \<le> 12"
    and "toKeyMonth (ld y m dd) = toKeyMonth (ld y' m' dd')"
  shows "y = y' \<and> m = m'"
proof -
  have b: "nat m < 100" "nat m' < 100" using assms by auto
  have pm: "padStart 2 (CHR ''0'') (numberToString m) = [digitChar (nat m div 10), digitChar (nat m mod 10)]"
    using assms(1) natToString_2 [OF b(1)] by (simp add: numberToString_def)
  have pm': "padStart 2 (CHR ''0'') (numberToString m') = [digitChar (nat m' div 10), digitChar (nat m' mod 10)]"
    using assms(3) natToString_2 [OF b(2)] by (simp add: numberToString_def)
  from assms(5) have "padStart 4 (CHR ''0'') (numberToString y)
         @ [CHR ''-'', digitChar (nat m div 10), digitChar (nat m mod 10)]
       = padStart 4 (CHR ''0'') (numberToString y')
         @ [CHR ''-'', digitChar (nat m' div 10), digitChar (nat m' mod 10)]"
    by (simp add: toKeyMonth_def pm pm')
  then have e: "padStart 4 (CHR ''0'') (numberToString y) = padStart 4 (CHR ''0'') (numberToString y')"
      "digitChar (nat m div 10) = digitChar (nat m' div 10)"
      "digitChar (nat m mod 10) = digitChar (nat m' mod 10)"
    by simp_all
  from e(1) have "y = y'" by (rule padStart_numberToString_inj)
  moreover have "nat m div 10 = nat m' div 10" "nat m mod 10 = nat m' mod 10"
    using e(2,3) b by (simp_all add: digitChar_eq)
  then have "nat m = nat m'" by (metis div_mult_mod_eq)
  ultimately show ?thesis using assms(1,3) by simp
qed


section \<open>Dependency analyzer: classification and event flow\<close>


lemma find_isEventHappened_balance:
  "find isEventHappened (filter (\<lambda>c. tag c = Balance) cs) = find isEventHappened cs"
proof (induction cs)
  case Nil
  then show ?case by simp
next
  case (Cons c cs)
  then show ?case by (cases c) simp_all
qed

lemma find_isEventHappened_cases:
  "find isEventHappened cs = None \<and> \<not> list_ex isEventHappened cs
   \<or> find isEventHappened cs = Some (EventHappened (triggerEventName cs)) \<and> list_ex isEventHappened cs"
proof (induction cs)
  case Nil
  then show ?case by simp
next
  case (Cons c cs)
  then show ?case by (cases c) auto
qed

lemma isEventHappened_balance: "isEventHappened c \<Longrightarrow> tag c = Balance"
  by (cases c) simp_all

lemma hasEventHappenedCondition_iff:
  "hasEventHappenedCondition e = list_ex isEventHappened (unlockedBy e)"
  using isEventHappened_balance by (auto simp: hasEventHappenedCondition_def list_ex_iff)

lemma hasBalanceCondition_iff:
  "hasBalanceCondition e = (filter (\<lambda>c. tag c = Balance) (unlockedBy e) \<noteq> [])"
  by (auto simp: hasBalanceCondition_def list_ex_iff filter_empty_conv)

definition mkTriggered :: "scenario_result \<Rightarrow> scenario_event \<Rightarrow> triggered_event" where
  "mkTriggered result e =
     \<lparr>tr_event = e, tr_triggerEvent = triggerEventName (unlockedBy e),
      tr_firedAt = findFiredAt (cashflow result) (name e)\<rparr>"

definition mkConditional :: "(rat \<Rightarrow> string) \<Rightarrow> scenario_event \<Rightarrow> conditional_event" where
  "mkConditional f e =
     \<lparr>ce_event = e,
      ce_conditions = filter (\<lambda>s. s \<noteq> [])
         (map (conditionToString f) (filter (\<lambda>c. tag c = Balance) (unlockedBy e)))\<rparr>"

lemma categorizeEvent_cases:
  "categorizeEvent f res acc e =
     (case dependencyClass e of
        Independent \<Rightarrow> acc\<lparr>independentEvents := independentEvents acc @ [e]\<rparr>
      | Conditional \<Rightarrow> acc\<lparr>conditionalEvents := conditionalEvents acc @ [mkConditional f e]\<rparr>
      | Triggered \<Rightarrow> acc\<lparr>triggeredEvents := triggeredEvents acc @ [mkTriggered res e]\<rparr>)"
proof (cases "hasBalanceCondition e")
  case False
  then show ?thesis
    by (simp add: categorizeEvent_def dependencyClass_def hasBalanceCondition_iff)
next
  case True
  note hb = this
  show ?thesis
  proof (cases "hasEventHappenedCondition e")
    case True
    then have "find isEventHappened (unlockedBy e) = Some (EventHappened (triggerEventName (unlockedBy e)))"
      using find_isEventHappened_cases [of "unlockedBy e"] by (simp add: hasEventHappenedCondition_iff)
    with hb True show ?thesis
      by (simp add: categorizeEvent_def dependencyClass_def hasBalanceCondition_iff
          find_isEventHappened_balance mkTriggered_def)
  next
    case False
    then have "find isEventHappened (unlockedBy e) = None"
      using find_isEventHappened_cases [of "unlockedBy e"] by (simp add: hasEventHappenedCondition_iff)
    with hb False show ?thesis
      by (simp add: categorizeEvent_def dependencyClass_def hasBalanceCondition_iff
          find_isEventHappened_balance mkConditional_def)
  qed
qed

lemma categorize_foldl:
  "foldl (categorizeEvent f res) acc es =
     acc\<lparr>independentEvents := independentEvents acc @ filter (\<lambda>e. dependencyClass e = Independent) es,
         conditionalEvents := conditionalEvents acc
            @ map (mkConditional f) (filter (\<lambda>e. dependencyClass e = Conditional) es),
         triggeredEvents := triggeredEvents acc
            @ map (mkTriggered res) (filter (\<lambda>e. dependencyClass e = Triggered) es)\<rparr>"
proof (induction es arbitrary: acc)
  case Nil
  then show ?case by simp
next
  case (Cons e es)
  show ?case
    by (cases "dependencyClass e") (simp_all add: Cons.IH categorizeEvent_cases [of f res acc e])
qed


definition triggerOf :: "triggered_event list \<Rightarrow> string \<Rightarrow> string option" where
  "triggerOf triggered n =
     map_option tr_triggerEvent (find (\<lambda>t. name (tr_event t) = n) triggered)"

definition mkStarting :: "scenario_event \<Rightarrow> starting_item" where
  "mkStarting e = \<lparr>si_event = e, si_amount = signedAmount e\<rparr>"

definition mkTriggeredItem :: "triggered_event list \<Rightarrow> scenario_event \<Rightarrow> triggered_item" where
  "mkTriggeredItem triggered e =
     \<lparr>ti_event = e,
      ti_triggerEvent = (case triggerOf triggered (name e) of Some n \<Rightarrow> n | None \<Rightarrow> [])\<rparr>"

lemma flowEvent_cases:
  "flowEvent triggered acc e =
     (if triggerOf triggered (name e) = None
      then (fst acc @ [mkStarting e], snd acc)
      else (fst acc, snd acc @ [mkTriggeredItem triggered e]))"
  by (simp add: flowEvent_def triggerOf_def mkStarting_def mkTriggeredItem_def Let_def
      split: option.splits)

lemma flowEvent_foldl:
  "foldl (flowEvent triggered) acc es =
     (fst acc @ map mkStarting (filter (\<lambda>e. triggerOf triggered (name e) = None) es),
      snd acc @ map (mkTriggeredItem triggered)
                  (filter (\<lambda>e. triggerOf triggered (name e) \<noteq> None) es))"
proof (induction es arbitrary: acc)
  case Nil
  then show ?case by simp
next
  case (Cons e es)
  show ?case
    by (simp add: Cons.IH flowEvent_cases [of triggered acc e])
qed

definition flowEntry :: "triggered_event list \<Rightarrow> scenario_result \<Rightarrow> string \<Rightarrow> flow_month" where
  "flowEntry triggered result k =
     \<lparr>monthKey = k,
      startingEvents =
        map mkStarting (filter (\<lambda>e. triggerOf triggered (name e) = None) (firedEvents result k)),
      triggeredBy =
        map (mkTriggeredItem triggered)
          (filter (\<lambda>e. triggerOf triggered (name e) \<noteq> None) (firedEvents result k))\<rparr>"

lemma filter_both_empty: "filter P xs = [] \<Longrightarrow> filter (\<lambda>x. \<not> P x) xs = [] \<Longrightarrow> xs = []"
  by (induction xs) (auto split: if_splits)

lemma buildEventFlow_eq:
  assumes "set ks \<subseteq> fst ` set (cashflow result)"
  shows "buildEventFlow triggered (cashflow result) ks flow =
     Inr (flow @ map (flowEntry triggered result) (filter (\<lambda>k. firedEvents result k \<noteq> []) ks))"
  using assms
proof (induction ks arbitrary: flow)
  case Nil
  then show ?case by simp
next
  case (Cons k ks)
  from Cons.prems obtain d where d: "map_of (cashflow result) k = Some d"
    by (metis list.set_intros(1) map_of_eq_None_iff not_None_eq subsetD)
  have ks: "set ks \<subseteq> fst ` set (cashflow result)" using Cons.prems by simp
  have fe: "firedEvents result k = cf_events d" by (simp add: firedEvents_def d)
  show ?case
  proof (cases "cf_events d = []")
    case True
    then show ?thesis by (simp add: d fe Cons.IH [OF ks])
  next
    case False
    have ne: "filter (\<lambda>e. triggerOf triggered (name e) = None) (cf_events d) \<noteq> []
        \<or> filter (\<lambda>e. triggerOf triggered (name e) \<noteq> None) (cf_events d) \<noteq> []"
      using False filter_both_empty [of "\<lambda>e. triggerOf triggered (name e) = None" "cf_events d"]
      by blast
    show ?thesis
      using False ne
      by (auto simp add: d fe Cons.IH [OF ks] flowEvent_foldl flowEntry_def)
  qed
qed

lemma analyzeEventDependencies_eq:
  "analyzeEventDependencies f scn result =
     Inr \<lparr>independentEvents = filter (\<lambda>e. dependencyClass e = Independent) (events scn),
          conditionalEvents =
            map (mkConditional f) (filter (\<lambda>e. dependencyClass e = Conditional) (events scn)),
          triggeredEvents =
            map (mkTriggered result) (filter (\<lambda>e. dependencyClass e = Triggered) (events scn)),
          eventFlow =
            map (flowEntry
                  (map (mkTriggered result) (filter (\<lambda>e. dependencyClass e = Triggered) (events scn)))
                  result)
              (filter (\<lambda>k. firedEvents result k \<noteq> []) (sort (map fst (cashflow result))))\<rparr>"
proof -
  have "set (sort (map fst (cashflow result))) \<subseteq> fst ` set (cashflow result)" by simp
  from buildEventFlow_eq [OF this] show ?thesis
    by (simp add: analyzeEventDependencies_def categorize_foldl)
qed


lemma dependencyClass_simps:
  "(dependencyClass e = Independent) = (\<not> hasBalanceCondition e)"
  "(dependencyClass e = Triggered) = (hasBalanceCondition e \<and> hasEventHappenedCondition e)"
  "(dependencyClass e = Conditional) = (hasBalanceCondition e \<and> \<not> hasEventHappenedCondition e)"
  by (simp_all add: dependencyClass_def)

lemma mset_three_filters:
  "mset (filter (\<lambda>e. dependencyClass e = Independent) es)
   + mset (filter (\<lambda>e. dependencyClass e = Conditional) es)
   + mset (filter (\<lambda>e. dependencyClass e = Triggered) es) = mset es"
proof (induction es)
  case Nil
  then show ?case by simp
next
  case (Cons e es)
  then show ?case by (cases "dependencyClass e") simp_all
qed

lemma map_event_mkConditional: "map ce_event (map (mkConditional f) es) = es"
  by (induction es) (simp_all add: mkConditional_def)

lemma map_event_mkTriggered: "map tr_event (map (mkTriggered r) es) = es"
  by (induction es) (simp_all add: mkTriggered_def)

text \<open>
  C3. \<open>analyzeEventDependencies\<close> returns (it never raises), and it puts every event of the
  scenario into exactly one of its three lists: the list of independent events is the
  scenario's events without a balance-tagged condition, in order; the triggered list holds
  the events with a balance-tagged condition one of which is an event-happened condition;
  the conditional list holds the events with a balance-tagged condition none of which is
  an event-happened condition. The three lists together hold every event as often as the
  scenario does, and no event is in two of them.
\<close>

theorem analyzeEventDependencies_classifies:
  "\<exists>a. analyzeEventDependencies toLocaleString scn result = Inr a
     \<and> independentEvents a = filter (\<lambda>e. \<not> hasBalanceCondition e) (events scn)
     \<and> map tr_event (triggeredEvents a) =
         filter (\<lambda>e. hasBalanceCondition e \<and> hasEventHappenedCondition e) (events scn)
     \<and> map ce_event (conditionalEvents a) =
         filter (\<lambda>e. hasBalanceCondition e \<and> \<not> hasEventHappenedCondition e) (events scn)
     \<and> mset (independentEvents a) + mset (map ce_event (conditionalEvents a))
         + mset (map tr_event (triggeredEvents a)) = mset (events scn)
     \<and> set (independentEvents a) \<inter> set (map ce_event (conditionalEvents a)) = {}
     \<and> set (independentEvents a) \<inter> set (map tr_event (triggeredEvents a)) = {}
     \<and> set (map ce_event (conditionalEvents a)) \<inter> set (map tr_event (triggeredEvents a)) = {}"
proof -
  let ?a = "\<lparr>independentEvents = filter (\<lambda>e. dependencyClass e = Independent) (events scn),
          conditionalEvents =
            map (mkConditional toLocaleString) (filter (\<lambda>e. dependencyClass e = Conditional) (events scn)),
          triggeredEvents =
            map (mkTriggered result) (filter (\<lambda>e. dependencyClass e = Triggered) (events scn)),
          eventFlow =
            map (flowEntry
                  (map (mkTriggered result) (filter (\<lambda>e. dependencyClass e = Triggered) (events scn)))
                  result)
              (filter (\<lambda>k. firedEvents result k \<noteq> []) (sort (map fst (cashflow result))))\<rparr>"
  have r: "analyzeEventDependencies toLocaleString scn result = Inr ?a"
    by (rule analyzeEventDependencies_eq)
  have i: "independentEvents ?a = filter (\<lambda>e. \<not> hasBalanceCondition e) (events scn)"
    by (simp add: dependencyClass_simps)
  have t: "map tr_event (triggeredEvents ?a) =
         filter (\<lambda>e. hasBalanceCondition e \<and> hasEventHappenedCondition e) (events scn)"
    by (simp add: dependencyClass_simps map_event_mkTriggered del: map_map)
  have c: "map ce_event (conditionalEvents ?a) =
         filter (\<lambda>e. hasBalanceCondition e \<and> \<not> hasEventHappenedCondition e) (events scn)"
    by (simp add: dependencyClass_simps map_event_mkConditional del: map_map)
  have m: "mset (independentEvents ?a) + mset (map ce_event (conditionalEvents ?a))
         + mset (map tr_event (triggeredEvents ?a)) = mset (events scn)"
    using mset_three_filters [of "events scn"]
    by (simp add: map_event_mkTriggered map_event_mkConditional del: map_map)
  have d1: "set (independentEvents ?a) \<inter> set (map ce_event (conditionalEvents ?a)) = {}"
    unfolding i c by auto
  have d2: "set (independentEvents ?a) \<inter> set (map tr_event (triggeredEvents ?a)) = {}"
    unfolding i t by auto
  have d3: "set (map ce_event (conditionalEvents ?a)) \<inter> set (map tr_event (triggeredEvents ?a)) = {}"
    unfolding c t by auto
  from r i t c m d1 d2 d3 show ?thesis by blast
qed

lemma mkTriggered_sel:
  "tr_event (mkTriggered r e) = e"
  "tr_triggerEvent (mkTriggered r e) = triggerEventName (unlockedBy e)"
  by (simp_all add: mkTriggered_def)

lemma triggerOf_distinct:
  assumes "distinct (map name es)" "e \<in> set es"
  shows "triggerOf (map (mkTriggered r) (filter (\<lambda>e. dependencyClass e = Triggered) es)) (name e) =
     (if dependencyClass e = Triggered then Some (triggerEventName (unlockedBy e)) else None)"
  using assms
proof (induction es)
  case Nil
  then show ?case by simp
next
  case (Cons x xs)
  show ?case
  proof (cases "e = x")
    case True
    have "name x \<notin> name ` set xs" using Cons.prems(1) by simp
    then have "\<And>y. y \<in> set xs \<Longrightarrow> name y \<noteq> name x" by (metis imageI)
    then have "find (\<lambda>t. name (tr_event t) = name x)
        (map (mkTriggered r) (filter (\<lambda>e. dependencyClass e = Triggered) xs)) = None"
      by (auto simp: find_None_iff mkTriggered_sel)
    then show ?thesis using True
      by (simp add: triggerOf_def mkTriggered_sel)
  next
    case False
    then have ex: "e \<in> set xs" using Cons.prems(2) by simp
    then have "name x \<noteq> name e" using Cons.prems(1) by force
    then have "triggerOf (map (mkTriggered r) (filter (\<lambda>e. dependencyClass e = Triggered) (x # xs))) (name e)
        = triggerOf (map (mkTriggered r) (filter (\<lambda>e. dependencyClass e = Triggered) xs)) (name e)"
      by (simp add: triggerOf_def mkTriggered_sel)
    moreover have "distinct (map name xs)" using Cons.prems(1) by simp
    ultimately show ?thesis using Cons.IH [OF _ ex] by simp
  qed
qed

text \<open>
  C4. For a result whose month keys are distinct (it is an object), and a scenario with
  unique event names whose events are the ones the result reports as fired: the event
  flow has one entry for each month key of the result whose list of fired events is not
  empty, in ascending order of the keys, and no other entry. The entry of a month splits
  the month's fired events, in order, into \<open>startingEvents\<close>, the events that are not
  classified as triggered, each with its signed amount, and \<open>triggeredBy\<close>, the events
  classified as triggered, each with the trigger-event name recorded for it.
\<close>

theorem eventFlow_partition:
  assumes keys: "distinct (map fst (cashflow result))"
    and names: "distinct (map name (events scn))"
    and fired: "\<And>k. set (firedEvents result k) \<subseteq> set (events scn)"
  shows "\<exists>a. analyzeEventDependencies toLocaleString scn result = Inr a
     \<and> eventFlow a =
         map (\<lambda>k. \<lparr>monthKey = k,
                   startingEvents =
                     map (\<lambda>e. \<lparr>si_event = e, si_amount = signedAmount e\<rparr>)
                       (filter (\<lambda>e. dependencyClass e \<noteq> Triggered) (firedEvents result k)),
                   triggeredBy =
                     map (\<lambda>e. \<lparr>ti_event = e, ti_triggerEvent = triggerEventName (unlockedBy e)\<rparr>)
                       (filter (\<lambda>e. dependencyClass e = Triggered) (firedEvents result k))\<rparr>)
           (filter (\<lambda>k. firedEvents result k \<noteq> []) (sort (map fst (cashflow result))))
     \<and> sorted_wrt (<) (map monthKey (eventFlow a))"
proof -
  let ?trig = "map (mkTriggered result) (filter (\<lambda>e. dependencyClass e = Triggered) (events scn))"
  let ?ks = "filter (\<lambda>k. firedEvents result k \<noteq> []) (sort (map fst (cashflow result)))"
  have entry: "flowEntry ?trig result k =
      \<lparr>monthKey = k,
       startingEvents =
         map (\<lambda>e. \<lparr>si_event = e, si_amount = signedAmount e\<rparr>)
           (filter (\<lambda>e. dependencyClass e \<noteq> Triggered) (firedEvents result k)),
       triggeredBy =
         map (\<lambda>e. \<lparr>ti_event = e, ti_triggerEvent = triggerEventName (unlockedBy e)\<rparr>)
           (filter (\<lambda>e. dependencyClass e = Triggered) (firedEvents result k))\<rparr>" for k
  proof -
    have t: "triggerOf ?trig (name e) =
        (if dependencyClass e = Triggered then Some (triggerEventName (unlockedBy e)) else None)"
      if "e \<in> set (firedEvents result k)" for e
      using triggerOf_distinct [OF names] that fired by blast
    have f1: "filter (\<lambda>e. triggerOf ?trig (name e) = None) (firedEvents result k)
        = filter (\<lambda>e. dependencyClass e \<noteq> Triggered) (firedEvents result k)"
      by (rule filter_cong) (simp_all add: t)
    have f2: "filter (\<lambda>e. triggerOf ?trig (name e) \<noteq> None) (firedEvents result k)
        = filter (\<lambda>e. dependencyClass e = Triggered) (firedEvents result k)"
      by (rule filter_cong) (simp_all add: t)
    have m2: "map (mkTriggeredItem ?trig) (filter (\<lambda>e. dependencyClass e = Triggered) (firedEvents result k))
        = map (\<lambda>e. \<lparr>ti_event = e, ti_triggerEvent = triggerEventName (unlockedBy e)\<rparr>)
           (filter (\<lambda>e. dependencyClass e = Triggered) (firedEvents result k))"
      by (rule map_cong) (simp_all add: mkTriggeredItem_def t)
    have m1: "map mkStarting xs = map (\<lambda>e. \<lparr>si_event = e, si_amount = signedAmount e\<rparr>) xs" for xs
      by (simp add: mkStarting_def)
    show ?thesis
      unfolding flowEntry_def f1 f2 m2 m1 ..
  qed
  have srt: "sorted_wrt (<) ?ks"
  proof -
    have "distinct (sort (map fst (cashflow result)))" using keys by simp
    then have "sorted_wrt (<) (sort (map fst (cashflow result)))"
      by (simp add: strict_sorted_iff)
    then show ?thesis by (rule sorted_wrt_filter)
  qed
  have mk: "map monthKey (map (flowEntry ?trig result) ks) = ks" for ks
    by (induction ks) (simp_all add: flowEntry_def)
  have "sorted_wrt (<) (map monthKey (map (flowEntry ?trig result) ?ks))"
    using srt by (simp only: mk)
  then show ?thesis
    using analyzeEventDependencies_eq [of toLocaleString scn result]
    by (simp add: entry)
qed



lemmas car_defs = carScenario_def carResult_def salary_def buyCar_def carInsurance_def holidays_def

theorem analyzeEventDependencies_classifies_witness:
  "\<exists>a. analyzeEventDependencies (\<lambda>_. []) carScenario carResult = Inr a
     \<and> independentEvents a = [salary, buyCar]
     \<and> map tr_event (triggeredEvents a) = [carInsurance]
     \<and> map ce_event (conditionalEvents a) = [holidays]"
  using analyzeEventDependencies_classifies [of "\<lambda>_. []" carScenario carResult]
  by (auto simp: car_defs hasBalanceCondition_def hasEventHappenedCondition_def)

theorem eventFlow_partition_witness:
  "distinct (map fst (cashflow carResult)) \<and> distinct (map name (events carScenario))
   \<and> (\<exists>a. analyzeEventDependencies (\<lambda>_. []) carScenario carResult = Inr a
     \<and> eventFlow a =
        [\<lparr>monthKey = ''2026-01'',
          startingEvents = [\<lparr>si_event = salary, si_amount = 2500\<rparr>,
                            \<lparr>si_event = buyCar, si_amount = - 10000\<rparr>],
          triggeredBy = []\<rparr>,
         \<lparr>monthKey = ''2026-02'',
          startingEvents = [\<lparr>si_event = salary, si_amount = 2500\<rparr>],
          triggeredBy = [\<lparr>ti_event = carInsurance, ti_triggerEvent = ''Buy Car''\<rparr>]\<rparr>])"
proof -
  have k: "distinct (map fst (cashflow carResult))" by (simp add: car_defs)
  have n: "distinct (map name (events carScenario))" by (simp add: car_defs)
  have f: "set (firedEvents carResult k) \<subseteq> set (events carScenario)" for k
    by (auto simp add: firedEvents_def carResult_def carScenario_def)
  have srt: "sort (map fst (cashflow carResult)) = [''2025-12'', ''2026-01'', ''2026-02'']"
    by (simp add: carResult_def)
  have fe: "firedEvents carResult ''2025-12'' = []" "firedEvents carResult ''2026-01'' = [salary, buyCar]"
    "firedEvents carResult ''2026-02'' = [salary, carInsurance]"
    by (simp_all add: firedEvents_def carResult_def)
  have dc: "dependencyClass salary = Independent" "dependencyClass buyCar = Independent" 
     "dependencyClass carInsurance = Triggered"
    by (simp_all add: dependencyClass_def hasBalanceCondition_def hasEventHappenedCondition_def car_defs)
  have sa: "signedAmount salary = 2500" "signedAmount buyCar = - 10000"
      "triggerEventName (unlockedBy carInsurance) = ''Buy Car''"
    by (simp_all add: signedAmount_def car_defs)
  show ?thesis
    using eventFlow_partition [OF k n f, of "\<lambda>_. []"] k n
    by (auto simp add: srt fe dc sa)
qed


section \<open>Dividend generator\<close>







section \<open>Cascade of dependents\<close>


lemma dependentsLoop_Some:
  assumes "\<And>t. t \<in> set ts \<Longrightarrow> tr_triggerEvent t = n \<Longrightarrow>
             recur (name (tr_event t)) = Some (S (name (tr_event t)))"
  shows "dependentsLoop recur n ts deps =
     Some (deps \<union> (\<Union>t \<in> {t \<in> set ts. tr_triggerEvent t = n}.
                       insert (name (tr_event t)) (S (name (tr_event t)))))"
  using assms
proof (induction ts arbitrary: deps)
  case Nil
  then show ?case by simp
next
  case (Cons t ts)
  have ih: "dependentsLoop recur n ts d =
     Some (d \<union> (\<Union>t \<in> {t \<in> set ts. tr_triggerEvent t = n}.
                       insert (name (tr_event t)) (S (name (tr_event t)))))" for d
    using Cons.IH Cons.prems by simp
  show ?case
  proof (cases "tr_triggerEvent t = n")
    case True
    then have "recur (name (tr_event t)) = Some (S (name (tr_event t)))"
      using Cons.prems by simp
    with True show ?thesis by (auto simp: ih)
  next
    case False
    then show ?thesis by (auto simp: ih)
  qed
qed

lemma dependents_unfold:
  "{x. (x, n) \<in> (triggerRelation a)\<^sup>+} =
     (\<Union>t \<in> {t \<in> set (triggeredEvents a). tr_triggerEvent t = n}.
        insert (name (tr_event t)) {x. (x, name (tr_event t)) \<in> (triggerRelation a)\<^sup>+})"
  (is "?L = ?R")
proof
  show "?L \<subseteq> ?R"
  proof
    fix x assume "x \<in> ?L"
    then have "(x, n) \<in> (triggerRelation a)\<^sup>+" by simp
    then obtain c where c: "(x, c) \<in> (triggerRelation a)\<^sup>*" "(c, n) \<in> triggerRelation a"
      by (meson tranclD2)
    from c(2) obtain t where t: "t \<in> set (triggeredEvents a)" "name (tr_event t) = c"
      "tr_triggerEvent t = n"
      by (auto simp: triggerRelation_def)
    from c(1) have "x = c \<or> (x, c) \<in> (triggerRelation a)\<^sup>+"
      by (auto simp add: rtrancl_eq_or_trancl)
    with t show "x \<in> ?R" by auto
  qed
  show "?R \<subseteq> ?L"
  proof
    fix x assume "x \<in> ?R"
    then obtain t where t: "t \<in> set (triggeredEvents a)" "tr_triggerEvent t = n"
      and x: "x = name (tr_event t) \<or> (x, name (tr_event t)) \<in> (triggerRelation a)\<^sup>+"
      by auto
    from t have e: "(name (tr_event t), n) \<in> triggerRelation a"
      by (force simp: triggerRelation_def)
    from x e show "x \<in> ?L" by (auto intro: trancl_into_trancl)
  qed
qed

lemma uniform_depth:
  assumes "\<And>t. t \<in> set ts \<Longrightarrow> tr_triggerEvent t = n \<Longrightarrow>
      \<exists>depth. \<forall>d\<ge>depth. getDependentEvents d (name (tr_event t)) a = Some (S (name (tr_event t)))"
  shows "\<exists>depth. \<forall>t \<in> set ts. tr_triggerEvent t = n \<longrightarrow>
      (\<forall>d\<ge>depth. getDependentEvents d (name (tr_event t)) a = Some (S (name (tr_event t))))"
  using assms
proof (induction ts)
  case Nil
  then show ?case by simp
next
  case (Cons t ts)
  from Cons obtain k1 where k1: "\<forall>u \<in> set ts. tr_triggerEvent u = n \<longrightarrow>
      (\<forall>d\<ge>k1. getDependentEvents d (name (tr_event u)) a = Some (S (name (tr_event u))))"
    by auto
  show ?case
  proof (cases "tr_triggerEvent t = n")
    case True
    then obtain k2 where k2: "\<forall>d\<ge>k2. getDependentEvents d (name (tr_event t)) a = Some (S (name (tr_event t)))"
      using Cons.prems by auto
    have "\<forall>u \<in> set (t # ts). tr_triggerEvent u = n \<longrightarrow>
      (\<forall>d\<ge>max k1 k2. getDependentEvents d (name (tr_event u)) a = Some (S (name (tr_event u))))"
      using k1 k2 by auto
    then show ?thesis by blast
  next
    case False
    with k1 have "\<forall>u \<in> set (t # ts). tr_triggerEvent u = n \<longrightarrow>
      (\<forall>d\<ge>k1. getDependentEvents d (name (tr_event u)) a = Some (S (name (tr_event u))))"
      by auto
    then show ?thesis by blast
  qed
qed

lemma getDependentEvents_returns:
  assumes "acyclic (triggerRelation a)"
  shows "\<exists>depth. \<forall>d\<ge>depth.
     getDependentEvents d eventName a = Some {x. (x, eventName) \<in> (triggerRelation a)\<^sup>+}"
proof -
  have "finite (triggerRelation a)" by (simp add: triggerRelation_def)
  then have wf: "wf (triggerRelation a)" using assms by (rule finite_acyclic_wf)
  show ?thesis
  proof (induction eventName rule: wf_induct_rule [OF wf])
    case (1 n)
    let ?S = "\<lambda>c. {x. (x, c) \<in> (triggerRelation a)\<^sup>+}"
    have "\<exists>depth. \<forall>d\<ge>depth. getDependentEvents d (name (tr_event t)) a = Some (?S (name (tr_event t)))"
      if "t \<in> set (triggeredEvents a)" "tr_triggerEvent t = n" for t
    proof -
      from that have "(name (tr_event t), n) \<in> triggerRelation a"
        by (force simp: triggerRelation_def)
      then show ?thesis by (rule 1)
    qed
    from uniform_depth [where S = ?S, OF this]
    obtain k where k: "\<forall>t \<in> set (triggeredEvents a). tr_triggerEvent t = n \<longrightarrow>
      (\<forall>d\<ge>k. getDependentEvents d (name (tr_event t)) a = Some (?S (name (tr_event t))))"
      by blast
    have "getDependentEvents d n a = Some (?S n)" if "d \<ge> Suc k" for d
    proof -
      from that obtain d' where d: "d = Suc d'" "d' \<ge> k" by (cases d) auto
      have "dependentsLoop (\<lambda>m. getDependentEvents d' m a) n (triggeredEvents a) {} =
          Some ({} \<union> (\<Union>t \<in> {t \<in> set (triggeredEvents a). tr_triggerEvent t = n}.
                       insert (name (tr_event t)) (?S (name (tr_event t)))))"
        by (rule dependentsLoop_Some) (use k d(2) in auto)
      then show ?thesis
        by (simp add: d(1) dependents_unfold [of n a])
    qed
    then show ?case by blast
  qed
qed


lemma getDependentEvents_cycle_never_returns:
  "getDependentEvents d ''Alpha'' cyclicAnalysis = None
   \<and> getDependentEvents d ''Beta'' cyclicAnalysis = None"
  by (induction d) (simp_all add: cyclicAnalysis_def alpha_def beta_def)

text \<open>
  C10. When the trigger relation of the analysis is acyclic, \<open>getDependentEvents\<close>
  returns: from some recursion depth on, every bound is enough, and the value is exactly
  the set of event names from which the given name is reachable through the relation in
  one or more steps (its transitive dependents). There is no cycle guard: on the analysis
  with two events that trigger each other no bound is ever enough, that is, the recursion
  does not return.
\<close>

theorem getDependentEvents_acyclic:
  "(acyclic (triggerRelation a) \<longrightarrow>
      (\<exists>depth. \<forall>d\<ge>depth.
         getDependentEvents d eventName a = Some {x. (x, eventName) \<in> (triggerRelation a)\<^sup>+}))
   \<and> (\<forall>d. getDependentEvents d ''Alpha'' cyclicAnalysis = None)"
  using getDependentEvents_returns [of a eventName] getDependentEvents_cycle_never_returns
  by blast

lemma cascade_acyclic: "acyclic (triggerRelation cascadeAnalysis)"
proof (rule acyclicI_order [where f = length])
  fix a b assume "(a, b) \<in> triggerRelation cascadeAnalysis"
  then show "length b < length a"
    by (auto simp: triggerRelation_def cascadeAnalysis_def carInsurance_def carMaintenance_def
        roadsideCover_def)
qed

theorem getDependentEvents_acyclic_witness:
  "acyclic (triggerRelation cascadeAnalysis)
   \<and> (\<exists>depth. \<forall>d\<ge>depth. getDependentEvents d ''Buy Car'' cascadeAnalysis =
         Some {x. (x, ''Buy Car'') \<in> (triggerRelation cascadeAnalysis)\<^sup>+})
   \<and> getDependentEvents (Suc (Suc (Suc 0))) ''Buy Car'' cascadeAnalysis =
         Some {''Car Insurance'', ''Car Maintenance'', ''Roadside Cover''}
   \<and> getDependentEvents (Suc (Suc 0)) ''Buy Car'' cascadeAnalysis = None"
proof -
  have e: "getDependentEvents (Suc (Suc (Suc 0))) ''Buy Car'' cascadeAnalysis =
         Some {''Car Insurance'', ''Car Maintenance'', ''Roadside Cover''}"
    by (simp add: cascadeAnalysis_def carInsurance_def carMaintenance_def roadsideCover_def
        insert_commute)
  have n: "getDependentEvents (Suc (Suc 0)) ''Buy Car'' cascadeAnalysis = None"
    by (simp add: cascadeAnalysis_def carInsurance_def carMaintenance_def roadsideCover_def)
  from getDependentEvents_acyclic [of cascadeAnalysis "''Buy Car''"] cascade_acyclic e n
  show ?thesis by blast
qed


section \<open>Timeline transformer: the forest of a year\<close>

lemma carAnalysis_is_analyzer_output:
  "analyzeEventDependencies (\<lambda>_. ''6,000'') carScenario carResult = Inr carAnalysis"
  by code_simp

text \<open>
  C5 fails on the code. The house scenario's analysis is what the analyzer returns. In
  2028 the flow holds the mortgage payment (triggered by the house purchase of 2027) and
  the mortgage insurance (triggered by the mortgage payment). The pass over the orphaned
  children first promotes the mortgage payment, whose parent is absent from 2028; the
  insurance is then taken to have its parent in the year and is not promoted, although the
  children of that parent were attached before the promotion. The forest of 2028 holds the
  mortgage payment alone, without children: the insurance is in the year's totals and in
  none of its nodes.
\<close>

theorem transformToTimelineData_drops_triggered_event:
  "analyzeEventDependencies (\<lambda>_. []) houseScenario houseResult = Inr houseAnalysis
   \<and> map (\<lambda>ty. (year ty, totalExpense ty, forestNames (timelineEvents ty)))
        (transformToTimelineData houseAnalysis) =
       [(Some 2027, 61200, [''Buy House'', ''Mortgage Payment'']),
        (Some 2028, 1250, [''Mortgage Payment''])]
   \<and> yearEventNames (eventFlow houseAnalysis) (Some 2028) =
       [''Mortgage Payment'', ''Mortgage Insurance'']"
  by code_simp

section \<open>Whole numbers are doubles\<close>
















section \<open>Timeline transformer: totals of a year\<close>










lemma keys_mapUpdate: "map fst (mapUpdate k f m) = map fst m"
  by (induction m) auto

lemma mapSet_fresh: "\<not> mapHas m k \<Longrightarrow> mapSet k v m = m @ [(k, v)]"
  by (induction m) (auto simp: mapHas_def)






















lemma processMonth_keys:
  "distinct (map fst ym) \<Longrightarrow> distinct (map fst (processMonth tm ym fm))"
  "set (map fst (processMonth tm ym fm)) = insert (fst (parseMonthKey (monthKey fm))) (set (map fst ym))"
proof -
  obtain yr mo where pk: "parseMonthKey (monthKey fm) = (yr, mo)" by (cases "parseMonthKey (monthKey fm)")
  have h: "mapHas ym yr \<longleftrightarrow> yr \<in> set (map fst ym)"
    by (simp add: mapHas_def map_of_eq_None_iff)
  show "distinct (map fst ym) \<Longrightarrow> distinct (map fst (processMonth tm ym fm))"
    using h by (cases "mapHas ym yr") (auto simp: processMonth_def pk keys_mapUpdate mapSet_fresh)
  show "set (map fst (processMonth tm ym fm)) = insert (fst (parseMonthKey (monthKey fm))) (set (map fst ym))"
    using h by (cases "mapHas ym yr") (auto simp: processMonth_def pk keys_mapUpdate mapSet_fresh)
qed



lemma yearMap_keys:
  "set (map fst (foldl (processMonth tm) ym flow)) =
     set (map fst ym) \<union> (\<lambda>fm. fst (parseMonthKey (monthKey fm))) ` set flow"
proof (induction flow arbitrary: ym)
  case Nil
  then show ?case by simp
next
  case (Cons fm flow)
  have "set (map fst (foldl (processMonth tm) (processMonth tm ym fm) flow)) =
      insert (fst (parseMonthKey (monthKey fm))) (set (map fst ym))
       \<union> (\<lambda>fm. fst (parseMonthKey (monthKey fm))) ` set flow"
    by (simp only: Cons.IH processMonth_keys(2))
  then show ?case by simp
qed

lemma set_insertBy: "set (insertBy cmp x xs) = insert x (set xs)"
  by (induction xs) auto

lemma set_sortBy_aux: "set (foldl (\<lambda>acc x. insertBy cmp x acc) acc xs) = set acc \<union> set xs"
  by (induction xs arbitrary: acc) (auto simp: set_insertBy)

lemma set_sortBy: "set (sortBy cmp xs) = set xs"
  by (simp add: sortBy_def set_sortBy_aux)

lemma timeline_years:
  "set (map year (transformToTimelineData analysis)) =
     (\<lambda>fm. fst (parseMonthKey (monthKey fm))) ` set (eventFlow analysis)"
proof -
  let ?ym = "foldl (processMonth (buildTriggerMap (triggeredEvents analysis))) [] (eventFlow analysis)"
  have "map year (map buildYear xs) = map fst xs" for xs
    by (induction xs) (simp_all add: buildYear_def Let_def split: prod.splits)
  then have "set (map year (transformToTimelineData analysis)) = set (map fst (sortBy compareYears ?ym))"
    by (simp only: transformToTimelineData_def Let_def)
  also have "\<dots> = set (map fst ?ym)" by (simp add: set_sortBy)
  also have "\<dots> = (\<lambda>fm. fst (parseMonthKey (monthKey fm))) ` set (eventFlow analysis)"
    using yearMap_keys [of "buildTriggerMap (triggeredEvents analysis)" "[]" "eventFlow analysis"]
    by simp
  finally show ?thesis .
qed











lemma fractionAnalysis_is_analyzer_output:
  "analyzeEventDependencies (\<lambda>_. []) fractionScenario fractionResult = Inr fractionAnalysis"
  by code_simp




section \<open>Simulation engine: balances\<close>


lemma js_month_mod:
  fixes total :: int
  shows "((total smod 12) + 12) smod 12 = total mod 12"
proof -
  have a: "\<bar>total smod 12\<bar> < 12"
    by (simp add: smod_int_alt_def abs_mult abs_sgn_eq)
  then have b: "0 \<le> total smod 12 + 12" by linarith
  have c: "(total smod 12 + 12) smod 12 = (total smod 12 + 12) mod 12"
    using b by (simp add: smod_int_alt_def sgn_if)
  have "(total smod 12 + 12) mod 12 = (total smod 12) mod 12" by simp
  also have "\<dots> = (total smod 12 + (total sdiv 12) * 12) mod 12"
    by (simp only: mod_mult_self1)
  also have "\<dots> = total mod 12" by (simp only: smod_sdiv_mult_eq)
  finally show ?thesis using c by simp
qed

lemma monthIndex_addMonthsLD: "monthIndex (addMonthsLD dt k) = monthIndex dt + k"
proof -
  let ?t = "month_of dt - 1 + k"
  have "(year_of dt + ?t div 12) * 12 + ?t mod 12 = year_of dt * 12 + ?t"
    by (simp add: algebra_simps)
  then show ?thesis
    by (simp add: monthIndex_def addMonthsLD_def Let_def js_month_mod)
qed

lemma month_of_addMonthsLD: "1 \<le> month_of (addMonthsLD dt k) \<and> month_of (addMonthsLD dt k) \<le> 12"
  using js_month_normalised [of "month_of dt - 1 + k"]
  by (simp add: addMonthsLD_def Let_def)

lemma toKeyMonth_addMonthsLD_inj:
  assumes "toKeyMonth (addMonthsLD dt i) = toKeyMonth (addMonthsLD dt j)"
  shows "i = j"
proof -
  obtain y m dd where a: "addMonthsLD dt i = ld y m dd" by (cases "addMonthsLD dt i")
  obtain y' m' dd' where b: "addMonthsLD dt j = ld y' m' dd'" by (cases "addMonthsLD dt j")
  have ra: "1 \<le> m" "m \<le> 12" using month_of_addMonthsLD [of dt i] by (simp_all add: a)
  have rb: "1 \<le> m'" "m' \<le> 12" using month_of_addMonthsLD [of dt j] by (simp_all add: b)
  from assms have "y = y' \<and> m = m'"
    unfolding a b by (rule toKeyMonth_inj [OF ra rb])
  then have "monthIndex (addMonthsLD dt i) = monthIndex (addMonthsLD dt j)"
    by (simp add: a b monthIndex_def)
  then show ?thesis by (simp add: monthIndex_addMonthsLD)
qed

lemma monthsInRange_distinct_keys:
  "distinct (map toKeyMonth (monthsInRange startDate endDate))"
proof -
  have "inj_on (\<lambda>i. toKeyMonth (addMonthsLD (startOfMonthLD startDate) (int i))) (set [0..<n])" for n
    by (rule inj_onI) (auto dest: toKeyMonth_addMonthsLD_inj)
  then show ?thesis
    by (simp add: monthsInRange_def distinct_map comp_def)
qed

fun chain :: "rat \<Rightarrow> rat list \<Rightarrow> rat list \<Rightarrow> bool" where
  "chain b [] [] = True"
| "chain b (x # xs) (n # ns) = (x = b + n \<and> chain x xs ns)"
| "chain b _ _ = False"

lemma chain_length: "chain b xs ns \<Longrightarrow> length xs = length ns"
  by (induction b xs ns rule: chain.induct) simp_all

lemma chain_first: "chain b xs ns \<Longrightarrow> xs \<noteq> [] \<Longrightarrow> xs ! 0 = b + ns ! 0"
  by (induction b xs ns rule: chain.induct) simp_all

lemma chain_step: "chain b xs ns \<Longrightarrow> Suc i < length xs \<Longrightarrow> xs ! Suc i = xs ! i + ns ! Suc i"
proof (induction xs arbitrary: b ns i)
  case Nil
  then show ?case by simp
next
  case (Cons x xs)
  from Cons.prems(1) obtain n ns' where ns: "ns = n # ns'" by (cases ns) auto
  from Cons.prems(1) have c: "chain x xs ns'" by (auto simp add: ns)
  show ?case
  proof (cases i)
    case 0
    with Cons.prems(2) have "xs \<noteq> []" by auto
    from chain_first [OF c this] 0 show ?thesis by (simp add: ns)
  next
    case (Suc j)
    with Cons.prems(2) have "Suc j < length xs" by simp
    from Cons.IH [OF c this] Suc show ?thesis by (simp add: ns)
  qed
qed


lemma mapHas_iff: "mapHas m k \<longleftrightarrow> k \<in> set (map fst m)"
  by (simp add: mapHas_def map_of_eq_None_iff)

lemma mapSet_new: "k \<notin> set (map fst m) \<Longrightarrow> mapSet k v m = m @ [(k, v)]"
  by (rule mapSet_fresh) (simp add: mapHas_iff)

lemma simulateMonth_fresh:
  assumes "toKeyMonth cur \<notin> set (map fst (balance (st_result st)))"
    and "toKeyMonth cur \<notin> set (map fst (cashflow (st_result st)))"
  shows "\<exists>cf. balance (st_result (simulateMonth scn st cur))
           = balance (st_result st) @ [(toKeyMonth cur, st_balance st + cf_amount cf)]
       \<and> cashflow (st_result (simulateMonth scn st cur))
           = cashflow (st_result st) @ [(toKeyMonth cur, cf)]
       \<and> st_balance (simulateMonth scn st cur) = st_balance st + cf_amount cf"
  using assms by (simp add: simulateMonth_def Let_def mapSet_new)

lemma simulate_foldl:
  assumes "distinct (map toKeyMonth ms)"
    and "set (map toKeyMonth ms) \<inter> set (map fst (balance (st_result st))) = {}"
    and "set (map toKeyMonth ms) \<inter> set (map fst (cashflow (st_result st))) = {}"
  shows "\<exists>bs cfs. length bs = length ms \<and> length cfs = length ms
     \<and> balance (st_result (foldl (simulateMonth scn) st ms))
         = balance (st_result st) @ zip (map toKeyMonth ms) bs
     \<and> cashflow (st_result (foldl (simulateMonth scn) st ms))
         = cashflow (st_result st) @ zip (map toKeyMonth ms) cfs
     \<and> chain (st_balance st) bs (map cf_amount cfs)"
  using assms
proof (induction ms arbitrary: st)
  case Nil
  then show ?case by simp
next
  case (Cons m ms)
  let ?st = "simulateMonth scn st m"
  have f1: "toKeyMonth m \<notin> set (map fst (balance (st_result st)))"
    and f2: "toKeyMonth m \<notin> set (map fst (cashflow (st_result st)))"
    using Cons.prems(2,3) by auto
  from simulateMonth_fresh [OF f1 f2, of scn] obtain cf where
    b: "balance (st_result ?st) = balance (st_result st) @ [(toKeyMonth m, st_balance st + cf_amount cf)]"
    and c: "cashflow (st_result ?st) = cashflow (st_result st) @ [(toKeyMonth m, cf)]"
    and n: "st_balance ?st = st_balance st + cf_amount cf"
    by blast
  have d: "distinct (map toKeyMonth ms)" using Cons.prems(1) by simp
  have k: "toKeyMonth m \<notin> set (map toKeyMonth ms)" using Cons.prems(1) by simp
  have i1: "set (map toKeyMonth ms) \<inter> set (map fst (balance (st_result ?st))) = {}"
    using Cons.prems(2) k by (auto simp: b)
  have i2: "set (map toKeyMonth ms) \<inter> set (map fst (cashflow (st_result ?st))) = {}"
    using Cons.prems(3) k by (auto simp: c)
  from Cons.IH [OF d i1 i2] obtain bs cfs where
    l: "length bs = length ms" "length cfs = length ms"
    and rb: "balance (st_result (foldl (simulateMonth scn) ?st ms))
         = balance (st_result ?st) @ zip (map toKeyMonth ms) bs"
    and rc: "cashflow (st_result (foldl (simulateMonth scn) ?st ms))
         = cashflow (st_result ?st) @ zip (map toKeyMonth ms) cfs"
    and ch: "chain (st_balance ?st) bs (map cf_amount cfs)"
    by blast
  let ?bs = "(st_balance st + cf_amount cf) # bs" and ?cfs = "cf # cfs"
  have "length ?bs = length (m # ms)" "length ?cfs = length (m # ms)" using l by simp_all
  moreover have "balance (st_result (foldl (simulateMonth scn) st (m # ms)))
         = balance (st_result st) @ zip (map toKeyMonth (m # ms)) ?bs"
    by (simp add: rb b)
  moreover have "cashflow (st_result (foldl (simulateMonth scn) st (m # ms)))
         = cashflow (st_result st) @ zip (map toKeyMonth (m # ms)) ?cfs"
    by (simp add: rc c)
  moreover have "chain (st_balance st) ?bs (map cf_amount ?cfs)"
    using ch by (simp add: n)
  ultimately show ?case by blast
qed

text \<open>
  C1. For a run over a non-empty range of months, the result has one balance and one
  cashflow entry per month of the range, in order and under distinct month keys; the
  balance of the first month is the initial balance plus the first month's net amount, and
  for every two consecutive month keys the balance of the later is the balance of the
  earlier plus the net amount of the later month's cashflow.
\<close>

theorem runScenario_balance_recurrence:
  assumes "monthsInRange startDate endDate \<noteq> []"
  shows "map fst (balance (runScenario scn startDate endDate initialBalance))
           = map toKeyMonth (monthsInRange startDate endDate)
     \<and> map fst (cashflow (runScenario scn startDate endDate initialBalance))
           = map toKeyMonth (monthsInRange startDate endDate)
     \<and> distinct (map toKeyMonth (monthsInRange startDate endDate))
     \<and> (\<exists>b cf.
           map_of (balance (runScenario scn startDate endDate initialBalance))
             (map toKeyMonth (monthsInRange startDate endDate) ! 0) = Some b
         \<and> map_of (cashflow (runScenario scn startDate endDate initialBalance))
             (map toKeyMonth (monthsInRange startDate endDate) ! 0) = Some cf
         \<and> b = initialBalance + cf_amount cf)
     \<and> (\<forall>i. Suc i < length (monthsInRange startDate endDate) \<longrightarrow>
          (\<exists>b0 b1 cf.
             map_of (balance (runScenario scn startDate endDate initialBalance))
               (map toKeyMonth (monthsInRange startDate endDate) ! i) = Some b0
           \<and> map_of (balance (runScenario scn startDate endDate initialBalance))
               (map toKeyMonth (monthsInRange startDate endDate) ! Suc i) = Some b1
           \<and> map_of (cashflow (runScenario scn startDate endDate initialBalance))
               (map toKeyMonth (monthsInRange startDate endDate) ! Suc i) = Some cf
           \<and> b1 = b0 + cf_amount cf))"
proof -
  let ?ms = "monthsInRange startDate endDate"
  let ?keys = "map toKeyMonth ?ms"
  let ?res = "runScenario scn startDate endDate initialBalance"
  let ?st0 = "\<lparr>st_balance = initialBalance, st_history = [],
           st_result = \<lparr>balance = [], cashflow = []\<rparr>\<rparr>"
  have d: "distinct ?keys" by (rule monthsInRange_distinct_keys)
  from simulate_foldl [OF d, of ?st0 scn] obtain bs cfs where
    l: "length bs = length ?ms" "length cfs = length ?ms"
    and rb: "balance ?res = zip ?keys bs"
    and rc: "cashflow ?res = zip ?keys cfs"
    and ch: "chain initialBalance bs (map cf_amount cfs)"
    by (auto simp: runScenario_def)
  have kb: "map fst (balance ?res) = ?keys" using l by (simp add: rb)
  have kc: "map fst (cashflow ?res) = ?keys" using l by (simp add: rc)
  have lb: "map_of (balance ?res) (?keys ! i) = Some (bs ! i)" if "i < length ?ms" for i
    unfolding rb using that l d by (intro map_of_zip_nth) simp_all
  have lc: "map_of (cashflow ?res) (?keys ! i) = Some (cfs ! i)" if "i < length ?ms" for i
    unfolding rc using that l d by (intro map_of_zip_nth) simp_all
  have ne: "bs \<noteq> []" "0 < length ?ms" using assms l by auto
  have first: "bs ! 0 = initialBalance + cf_amount (cfs ! 0)"
    using chain_first [OF ch ne(1)] ne(2) l by simp
  have step: "bs ! Suc i = bs ! i + cf_amount (cfs ! Suc i)" if "Suc i < length ?ms" for i
    using chain_step [OF ch, of i] that l by simp
  have c4: "\<exists>b cf. map_of (balance ?res) (?keys ! 0) = Some b
         \<and> map_of (cashflow ?res) (?keys ! 0) = Some cf \<and> b = initialBalance + cf_amount cf"
    using lb [OF ne(2)] lc [OF ne(2)] first by blast
  have c5: "\<forall>i. Suc i < length ?ms \<longrightarrow>
          (\<exists>b0 b1 cf. map_of (balance ?res) (?keys ! i) = Some b0
           \<and> map_of (balance ?res) (?keys ! Suc i) = Some b1
           \<and> map_of (cashflow ?res) (?keys ! Suc i) = Some cf
           \<and> b1 = b0 + cf_amount cf)"
  proof (intro allI impI)
    fix i assume s: "Suc i < length ?ms"
    then have i: "i < length ?ms" by simp
    from lb [OF i] lb [OF s] lc [OF s] step [OF s]
    show "\<exists>b0 b1 cf. map_of (balance ?res) (?keys ! i) = Some b0
           \<and> map_of (balance ?res) (?keys ! Suc i) = Some b1
           \<and> map_of (cashflow ?res) (?keys ! Suc i) = Some cf
           \<and> b1 = b0 + cf_amount cf"
      by blast
  qed
  from kb kc d c4 c5 show ?thesis by blast
qed


theorem runScenario_balance_recurrence_witness:
  "monthsInRange (ld 2025 1 1) (ld 2025 5 1) \<noteq> []
   \<and> map_of (balance (runScenario holidayScenario (ld 2025 1 1) (ld 2025 5 1) 0)) ''2025-03''
        = Some 6000
   \<and> (\<exists>b1 cf.
          map_of (balance (runScenario holidayScenario (ld 2025 1 1) (ld 2025 5 1) 0)) ''2025-04''
            = Some b1
        \<and> map_of (cashflow (runScenario holidayScenario (ld 2025 1 1) (ld 2025 5 1) 0)) ''2025-04''
            = Some cf
        \<and> b1 = 6000 + cf_amount cf)"
proof -
  have ne: "monthsInRange (ld 2025 1 1) (ld 2025 5 1) \<noteq> []" by code_simp
  have len: "Suc 2 < length (monthsInRange (ld 2025 1 1) (ld 2025 5 1))" by code_simp
  have k2: "map toKeyMonth (monthsInRange (ld 2025 1 1) (ld 2025 5 1)) ! 2 = ''2025-03''"
    by code_simp
  have k3: "map toKeyMonth (monthsInRange (ld 2025 1 1) (ld 2025 5 1)) ! Suc 2 = ''2025-04''"
    by code_simp
  have b2: "map_of (balance (runScenario holidayScenario (ld 2025 1 1) (ld 2025 5 1) 0)) ''2025-03''
        = Some 6000"
    by code_simp
  from runScenario_balance_recurrence [OF ne, of holidayScenario 0] len
  have "\<exists>b0 b1 cf.
       map_of (balance (runScenario holidayScenario (ld 2025 1 1) (ld 2025 5 1) 0))
         (map toKeyMonth (monthsInRange (ld 2025 1 1) (ld 2025 5 1)) ! 2) = Some b0
     \<and> map_of (balance (runScenario holidayScenario (ld 2025 1 1) (ld 2025 5 1) 0))
         (map toKeyMonth (monthsInRange (ld 2025 1 1) (ld 2025 5 1)) ! Suc 2) = Some b1
     \<and> map_of (cashflow (runScenario holidayScenario (ld 2025 1 1) (ld 2025 5 1) 0))
         (map toKeyMonth (monthsInRange (ld 2025 1 1) (ld 2025 5 1)) ! Suc 2) = Some cf
     \<and> b1 = b0 + cf_amount cf"
    by blast
  then show ?thesis
    unfolding k2 k3 using ne b2 by auto
qed

lemma simulateMonth_fired:
  assumes "toKeyMonth cur \<notin> set (map fst (balance (st_result st)))"
    and "toKeyMonth cur \<notin> set (map fst (cashflow (st_result st)))"
  shows "\<exists>cf. balance (st_result (simulateMonth scn st cur))
           = balance (st_result st) @ [(toKeyMonth cur, st_balance (simulateMonth scn st cur))]
       \<and> cashflow (st_result (simulateMonth scn st cur))
           = cashflow (st_result st) @ [(toKeyMonth cur, cf)]
       \<and> cf_events cf = filter (isUnlocked scn cur (st_balance st) (st_history st)) (events scn)"
  using assms by (simp add: simulateMonth_def Let_def mapSet_new)

lemma simulate_foldl_fired:
  assumes "distinct (map toKeyMonth ms)"
    and "set (map toKeyMonth ms) \<inter> set (map fst (balance (st_result st))) = {}"
    and "set (map toKeyMonth ms) \<inter> set (map fst (cashflow (st_result st))) = {}"
  shows "\<exists>bs cfs. length bs = length ms \<and> length cfs = length ms
     \<and> balance (st_result (foldl (simulateMonth scn) st ms))
         = balance (st_result st) @ zip (map toKeyMonth ms) bs
     \<and> cashflow (st_result (foldl (simulateMonth scn) st ms))
         = cashflow (st_result st) @ zip (map toKeyMonth ms) cfs
     \<and> (\<forall>i < length ms. \<exists>h.
           cf_events (cfs ! i) =
             filter (isUnlocked scn (ms ! i) ((st_balance st # bs) ! i) h) (events scn))"
  using assms
proof (induction ms arbitrary: st)
  case Nil
  then show ?case by simp
next
  case (Cons m ms)
  let ?st = "simulateMonth scn st m"
  have f1: "toKeyMonth m \<notin> set (map fst (balance (st_result st)))"
    and f2: "toKeyMonth m \<notin> set (map fst (cashflow (st_result st)))"
    using Cons.prems(2,3) by auto
  from simulateMonth_fired [OF f1 f2, of scn] obtain cf where
    b: "balance (st_result ?st) = balance (st_result st) @ [(toKeyMonth m, st_balance ?st)]"
    and c: "cashflow (st_result ?st) = cashflow (st_result st) @ [(toKeyMonth m, cf)]"
    and f: "cf_events cf = filter (isUnlocked scn m (st_balance st) (st_history st)) (events scn)"
    by blast
  have d: "distinct (map toKeyMonth ms)" using Cons.prems(1) by simp
  have k: "toKeyMonth m \<notin> set (map toKeyMonth ms)" using Cons.prems(1) by simp
  have i1: "set (map toKeyMonth ms) \<inter> set (map fst (balance (st_result ?st))) = {}"
    using Cons.prems(2) k by (auto simp: b)
  have i2: "set (map toKeyMonth ms) \<inter> set (map fst (cashflow (st_result ?st))) = {}"
    using Cons.prems(3) k by (auto simp: c)
  from Cons.IH [OF d i1 i2] obtain bs cfs where
    l: "length bs = length ms" "length cfs = length ms"
    and rb: "balance (st_result (foldl (simulateMonth scn) ?st ms))
         = balance (st_result ?st) @ zip (map toKeyMonth ms) bs"
    and rc: "cashflow (st_result (foldl (simulateMonth scn) ?st ms))
         = cashflow (st_result ?st) @ zip (map toKeyMonth ms) cfs"
    and fi: "\<forall>i < length ms. \<exists>h.
           cf_events (cfs ! i) =
             filter (isUnlocked scn (ms ! i) ((st_balance ?st # bs) ! i) h) (events scn)"
    by blast
  let ?bs = "st_balance ?st # bs" and ?cfs = "cf # cfs"
  have "length ?bs = length (m # ms)" "length ?cfs = length (m # ms)" using l by simp_all
  moreover have "balance (st_result (foldl (simulateMonth scn) st (m # ms)))
         = balance (st_result st) @ zip (map toKeyMonth (m # ms)) ?bs"
    by (simp add: rb b)
  moreover have "cashflow (st_result (foldl (simulateMonth scn) st (m # ms)))
         = cashflow (st_result st) @ zip (map toKeyMonth (m # ms)) ?cfs"
    by (simp add: rc c)
  moreover have "\<forall>i < length (m # ms). \<exists>h.
           cf_events (?cfs ! i) =
             filter (isUnlocked scn ((m # ms) ! i) ((st_balance st # ?bs) ! i) h) (events scn)"
  proof (intro allI impI)
    fix i assume i: "i < length (m # ms)"
    show "\<exists>h. cf_events (?cfs ! i) =
             filter (isUnlocked scn ((m # ms) ! i) ((st_balance st # ?bs) ! i) h) (events scn)"
    proof (cases i)
      case 0
      then show ?thesis using f by auto
    next
      case (Suc j)
      with i have "j < length ms" by simp
      with fi obtain h where "cf_events (cfs ! j) =
             filter (isUnlocked scn (ms ! j) ((st_balance ?st # bs) ! j) h) (events scn)"
        by blast
      then show ?thesis by (auto simp: Suc)
    qed
  qed
  ultimately show ?case by blast
qed

lemma networth_condition_needs_balance:
  assumes "isUnlocked scn cur prev h e" "NetworthIsAbove r amt \<in> set (unlockedBy e)"
  shows "amt \<le> prev"
proof -
  from assms(1) have "list_all (conditionHolds scn cur prev h) (unlockedBy e)"
    by (simp add: isUnlocked_def)
  with assms(2) have "conditionHolds scn cur prev h (NetworthIsAbove r amt)"
    by (auto simp: list_all_iff)
  then show ?thesis by simp
qed

text \<open>
  C2. In every run, for every month of the range, let \<open>prev\<close> be the initial balance when
  the month is the first one, and otherwise the balance that the result records for the
  month before. An event that fires in the month and has a \<open>networth-is-above\<close> condition
  with amount \<open>amt\<close> has \<open>amt \<le> prev\<close>; and an event of the scenario whose only condition
  is \<open>networth-is-above\<close> with amount \<open>amt\<close> fires in the month exactly when it is active in
  the month and \<open>amt \<le> prev\<close>. The flows of the month itself play no part. The test
  scenario, run from January to May 2025 with initial balance 0, yields the balances 2000,
  4000, 6000, 4000, 6000: the holiday fires in April only, the one month whose previous
  month ended with a balance of at least 6000.
\<close>

theorem networth_condition_reads_previous_balance:
  "(\<forall>i < length (monthsInRange startDate endDate).
      \<exists>prev cf.
         (if i = 0 then prev = initialBalance
          else map_of (balance (runScenario scn startDate endDate initialBalance))
                 (map toKeyMonth (monthsInRange startDate endDate) ! (i - 1)) = Some prev)
       \<and> map_of (cashflow (runScenario scn startDate endDate initialBalance))
           (map toKeyMonth (monthsInRange startDate endDate) ! i) = Some cf
       \<and> (\<forall>e r amt. e \<in> set (cf_events cf) \<and> NetworthIsAbove r amt \<in> set (unlockedBy e)
             \<longrightarrow> amt \<le> prev)
       \<and> (\<forall>e r amt. e \<in> set (events scn) \<and> unlockedBy e = [NetworthIsAbove r amt]
             \<longrightarrow> (e \<in> set (cf_events cf)) =
                   (isEventActiveInMonth (monthsInRange startDate endDate ! i) e \<and> amt \<le> prev)))
   \<and> balance (runScenario holidayScenario (ld 2025 1 1) (ld 2025 5 1) 0) =
       [(''2025-01'', 2000), (''2025-02'', 4000), (''2025-03'', 6000), (''2025-04'', 4000),
        (''2025-05'', 6000)]
   \<and> map (\<lambda>p. (fst p, map name (cf_events (snd p))))
        (cashflow (runScenario holidayScenario (ld 2025 1 1) (ld 2025 5 1) 0)) =
       [(''2025-01'', [''Salary'']), (''2025-02'', [''Salary'']), (''2025-03'', [''Salary'']),
        (''2025-04'', [''Salary'', ''Holidays'']), (''2025-05'', [''Salary''])]"
proof -
  let ?ms = "monthsInRange startDate endDate"
  let ?keys = "map toKeyMonth ?ms"
  let ?res = "runScenario scn startDate endDate initialBalance"
  let ?st0 = "\<lparr>st_balance = initialBalance, st_history = [],
           st_result = \<lparr>balance = [], cashflow = []\<rparr>\<rparr>"
  have d: "distinct ?keys" by (rule monthsInRange_distinct_keys)
  from simulate_foldl_fired [OF d, of ?st0 scn] obtain bs cfs where
    l: "length bs = length ?ms" "length cfs = length ?ms"
    and rb: "balance ?res = zip ?keys bs"
    and rc: "cashflow ?res = zip ?keys cfs"
    and fi: "\<forall>i < length ?ms. \<exists>h.
           cf_events (cfs ! i) =
             filter (isUnlocked scn (?ms ! i) ((initialBalance # bs) ! i) h) (events scn)"
    by (auto simp: runScenario_def)
  have lb: "map_of (balance ?res) (?keys ! i) = Some (bs ! i)" if "i < length ?ms" for i
    unfolding rb using that l d by (intro map_of_zip_nth) simp_all
  have lc: "map_of (cashflow ?res) (?keys ! i) = Some (cfs ! i)" if "i < length ?ms" for i
    unfolding rc using that l d by (intro map_of_zip_nth) simp_all
  have general: "\<forall>i < length ?ms.
      \<exists>prev cf.
         (if i = 0 then prev = initialBalance
          else map_of (balance ?res) (?keys ! (i - 1)) = Some prev)
       \<and> map_of (cashflow ?res) (?keys ! i) = Some cf
       \<and> (\<forall>e r amt. e \<in> set (cf_events cf) \<and> NetworthIsAbove r amt \<in> set (unlockedBy e)
             \<longrightarrow> amt \<le> prev)
       \<and> (\<forall>e r amt. e \<in> set (events scn) \<and> unlockedBy e = [NetworthIsAbove r amt]
             \<longrightarrow> (e \<in> set (cf_events cf)) = (isEventActiveInMonth (?ms ! i) e \<and> amt \<le> prev))"
  proof (intro allI impI)
    fix i assume i: "i < length ?ms"
    define prev where "prev = (initialBalance # bs) ! i"
    from fi i obtain h where
      ev: "cf_events (cfs ! i) = filter (isUnlocked scn (?ms ! i) prev h) (events scn)"
      unfolding prev_def by blast
    have p: "if i = 0 then prev = initialBalance
          else map_of (balance ?res) (?keys ! (i - 1)) = Some prev"
    proof (cases i)
      case 0
      then show ?thesis by (simp add: prev_def)
    next
      case (Suc j)
      with i have "j < length ?ms" by simp
      from lb [OF this] show ?thesis by (simp add: Suc prev_def)
    qed
    have n: "\<forall>e r amt. e \<in> set (cf_events (cfs ! i))
              \<and> NetworthIsAbove r amt \<in> set (unlockedBy e) \<longrightarrow> amt \<le> prev"
      unfolding ev by (auto dest: networth_condition_needs_balance)
    have o: "\<forall>e r amt. e \<in> set (events scn) \<and> unlockedBy e = [NetworthIsAbove r amt]
             \<longrightarrow> (e \<in> set (cf_events (cfs ! i))) =
                   (isEventActiveInMonth (?ms ! i) e \<and> amt \<le> prev)"
      unfolding ev by (auto simp: isUnlocked_def)
    from p lc [OF i] n o
    show "\<exists>prev cf.
         (if i = 0 then prev = initialBalance
          else map_of (balance ?res) (?keys ! (i - 1)) = Some prev)
       \<and> map_of (cashflow ?res) (?keys ! i) = Some cf
       \<and> (\<forall>e r amt. e \<in> set (cf_events cf) \<and> NetworthIsAbove r amt \<in> set (unlockedBy e)
             \<longrightarrow> amt \<le> prev)
       \<and> (\<forall>e r amt. e \<in> set (events scn) \<and> unlockedBy e = [NetworthIsAbove r amt]
             \<longrightarrow> (e \<in> set (cf_events cf)) = (isEventActiveInMonth (?ms ! i) e \<and> amt \<le> prev))"
      by blast
  qed
  have b: "balance (runScenario holidayScenario (ld 2025 1 1) (ld 2025 5 1) 0) =
     [(''2025-01'', 2000), (''2025-02'', 4000), (''2025-03'', 6000), (''2025-04'', 4000),
      (''2025-05'', 6000)]"
    by code_simp
  have c: "map (\<lambda>p. (fst p, map name (cf_events (snd p))))
        (cashflow (runScenario holidayScenario (ld 2025 1 1) (ld 2025 5 1) 0)) =
     [(''2025-01'', [''Salary'']), (''2025-02'', [''Salary'']), (''2025-03'', [''Salary'']),
      (''2025-04'', [''Salary'', ''Holidays'']), (''2025-05'', [''Salary''])]"
    by code_simp
  from general b c show ?thesis by blast
qed

theorem networth_condition_reads_previous_balance_witness:
  "map_of (balance (runScenario holidayScenario (ld 2025 1 1) (ld 2025 5 1) 0)) ''2025-03''
     = Some 6000
   \<and> (\<exists>cf. map_of (cashflow (runScenario holidayScenario (ld 2025 1 1) (ld 2025 5 1) 0))
              ''2025-04'' = Some cf
          \<and> holidays \<in> set (cf_events cf))
   \<and> map_of (balance (runScenario holidayScenario (ld 2025 1 1) (ld 2025 5 1) 5000)) ''2025-01''
       = Some 7000
   \<and> (\<exists>cf. map_of (cashflow (runScenario holidayScenario (ld 2025 1 1) (ld 2025 5 1) 5000))
              ''2025-01'' = Some cf
          \<and> holidays \<notin> set (cf_events cf))
   \<and> (\<exists>cf. map_of (cashflow (runScenario holidayScenario (ld 2025 1 1) (ld 2025 5 1) 6000))
              ''2025-01'' = Some cf
          \<and> holidays \<in> set (cf_events cf))"
proof -
  let ?ms = "monthsInRange (ld 2025 1 1) (ld 2025 5 1)"
  have l0: "0 < length ?ms" and l3: "3 < length ?ms" by code_simp+
  have k0: "map toKeyMonth ?ms ! 0 = ''2025-01''" by code_simp
  have k2: "map toKeyMonth ?ms ! (3 - 1) = ''2025-03''" by code_simp
  have k3: "map toKeyMonth ?ms ! 3 = ''2025-04''" by code_simp
  have b2: "map_of (balance (runScenario holidayScenario (ld 2025 1 1) (ld 2025 5 1) 0))
      ''2025-03'' = Some 6000"
    by code_simp
  have b0: "map_of (balance (runScenario holidayScenario (ld 2025 1 1) (ld 2025 5 1) 5000))
      ''2025-01'' = Some 7000"
    by code_simp
  have h: "holidays \<in> set (events holidayScenario)"
    "unlockedBy holidays = [NetworthIsAbove ''Salary'' 6000]"
    "isEventActiveInMonth cur holidays" for cur
    by (simp_all add: holidayScenario_def holidays_def isEventActiveInMonth_def)
  have april: "\<exists>cf. map_of (cashflow (runScenario holidayScenario (ld 2025 1 1) (ld 2025 5 1) 0))
              ''2025-04'' = Some cf \<and> holidays \<in> set (cf_events cf)"
  proof -
    from networth_condition_reads_previous_balance
           [of "ld 2025 1 1" "ld 2025 5 1" 0 holidayScenario] l3
    obtain prev cf where
      p: "map_of (balance (runScenario holidayScenario (ld 2025 1 1) (ld 2025 5 1) 0))
            (map toKeyMonth ?ms ! (3 - 1)) = Some prev"
      and c: "map_of (cashflow (runScenario holidayScenario (ld 2025 1 1) (ld 2025 5 1) 0))
            (map toKeyMonth ?ms ! 3) = Some cf"
      and o: "\<forall>e r amt. e \<in> set (events holidayScenario)
                \<and> unlockedBy e = [NetworthIsAbove r amt]
             \<longrightarrow> (e \<in> set (cf_events cf)) = (isEventActiveInMonth (?ms ! 3) e \<and> amt \<le> prev)"
      by fastforce
    from p have "prev = 6000" unfolding k2 b2 by simp
    with o h have "holidays \<in> set (cf_events cf)" by auto
    with c show ?thesis unfolding k3 by blast
  qed
  have first: "\<exists>cf. map_of (cashflow (runScenario holidayScenario (ld 2025 1 1) (ld 2025 5 1) b))
              ''2025-01'' = Some cf
         \<and> (holidays \<in> set (cf_events cf)) = (6000 \<le> b)" for b
  proof -
    from networth_condition_reads_previous_balance
           [of "ld 2025 1 1" "ld 2025 5 1" b holidayScenario] l0
    obtain prev cf where
      p: "prev = b"
      and c: "map_of (cashflow (runScenario holidayScenario (ld 2025 1 1) (ld 2025 5 1) b))
            (map toKeyMonth ?ms ! 0) = Some cf"
      and o: "\<forall>e r amt. e \<in> set (events holidayScenario)
                \<and> unlockedBy e = [NetworthIsAbove r amt]
             \<longrightarrow> (e \<in> set (cf_events cf)) = (isEventActiveInMonth (?ms ! 0) e \<and> amt \<le> prev)"
      by fastforce
    from o h p have "(holidays \<in> set (cf_events cf)) = (6000 \<le> b)" by auto
    with c show ?thesis unfolding k0 by blast
  qed
  from first [of 5000] first [of 6000] april b2 b0 show ?thesis by simp
qed

lemma example_results_are_engine_output:
  "runScenario carScenario (ld 2025 12 1) (ld 2026 2 1) 0 = carResult"
  "runScenario houseScenario (ld 2027 11 1) (ld 2028 1 1) 0 = houseResult"
  "runScenario fractionScenario (ld 2026 1 1) (ld 2026 1 31) 0 = fractionResult"
  by code_simp+

end
